theory Spec2Isabelle
  imports Main "HOL-Library.Word"

begin

unbundle bit_operations_syntax

section \<open>Ordering transform (\<open>ordering_none\<close>, \<open>ordering_default\<close>)\<close>

text \<open>
  Keys are fixed-width, trivially copyable values; a key is modelled by its bit pattern,
  a word of the key's width.  \<open>std::int64_t\<close>, \<open>std::int32_t\<close>, \<open>std::int16_t\<close> and
  \<open>std::int8_t\<close> are two's complement words read with \<open>sint\<close>; \<open>float\<close> and \<open>double\<close>
  are their IEEE 754 binary32 and binary64 bit patterns, which is how
  \<open>ordering_default\<close> itself handles them (it casts the address of the value to
  \<open>std::uint32_t*\<close> or \<open>std::uint64_t*\<close>).  The \<open>if constexpr\<close> chain selects one
  branch per key type, so each branch is a function of its own.
\<close>

type_synonym byte = "8 word"

definition ordering_none_apply :: "'a \<Rightarrow> 'a" where
  "ordering_none_apply v = v"

definition ordering_none_restore :: "'a \<Rightarrow> 'a" where
  "ordering_none_restore v = v"

definition ordering_default_apply_int64 :: "64 word \<Rightarrow> 64 word" where
  "ordering_default_apply_int64 v = v XOR push_bit 63 1"

definition ordering_default_apply_int32 :: "32 word \<Rightarrow> 32 word" where
  "ordering_default_apply_int32 v = v XOR push_bit 31 1"

definition ordering_default_apply_int16 :: "16 word \<Rightarrow> 16 word" where
  "ordering_default_apply_int16 v = v XOR push_bit 15 1"

definition ordering_default_apply_int8 :: "8 word \<Rightarrow> 8 word" where
  "ordering_default_apply_int8 v = v XOR push_bit 7 1"

text \<open>\<open>!x\<close> is 1 when \<open>x\<close> is zero and 0 otherwise; \<open>!!x\<close> is the opposite.\<close>

definition ordering_default_apply_float :: "32 word \<Rightarrow> 32 word" where
  "ordering_default_apply_float v =
     (let pf = v XOR 0x80000000;
          pf = pf XOR (0x7FFFFFFF * of_bool (pf AND 0x80000000 = 0))
      in pf)"

definition ordering_default_apply_double :: "64 word \<Rightarrow> 64 word" where
  "ordering_default_apply_double v =
     (let pf = v XOR 0x8000000000000000;
          pf = pf XOR (0x7FFFFFFFFFFFFFFF * of_bool (pf AND 0x8000000000000000 = 0))
      in pf)"

definition ordering_default_restore_int64 :: "64 word \<Rightarrow> 64 word" where
  "ordering_default_restore_int64 v = v XOR push_bit 63 1"

definition ordering_default_restore_int32 :: "32 word \<Rightarrow> 32 word" where
  "ordering_default_restore_int32 v = v XOR push_bit 31 1"

definition ordering_default_restore_int16 :: "16 word \<Rightarrow> 16 word" where
  "ordering_default_restore_int16 v = v XOR push_bit 15 1"

definition ordering_default_restore_int8 :: "8 word \<Rightarrow> 8 word" where
  "ordering_default_restore_int8 v = v XOR push_bit 7 1"

definition ordering_default_restore_float :: "32 word \<Rightarrow> 32 word" where
  "ordering_default_restore_float v =
     (let pf = v XOR 0x80000000;
          pf = pf XOR (0x7FFFFFFF * of_bool (pf AND 0x80000000 \<noteq> 0))
      in pf)"

definition ordering_default_restore_double :: "64 word \<Rightarrow> 64 word" where
  "ordering_default_restore_double v =
     (let pf = v XOR 0x8000000000000000;
          pf = pf XOR (0x7FFFFFFFFFFFFFFF * of_bool (pf AND 0x8000000000000000 \<noteq> 0))
      in pf)"

text \<open>
  The transforms at any width, used to reason about all key types at once:
  \<open>flip_sign\<close> is the signed-integer branch, \<open>fp_apply\<close> and \<open>fp_restore\<close> are the
  floating-point branches.
\<close>

definition flip_sign :: "'a::len word \<Rightarrow> 'a word" where
  "flip_sign v = v XOR 2 ^ (LENGTH('a) - Suc 0)"

definition fp_apply :: "'a::len word \<Rightarrow> 'a word" where
  "fp_apply v =
     (let pf = v XOR 2 ^ (LENGTH('a) - Suc 0)
      in pf XOR (mask (LENGTH('a) - Suc 0) * of_bool (\<not> bit pf (LENGTH('a) - Suc 0))))"

definition fp_restore :: "'a::len word \<Rightarrow> 'a word" where
  "fp_restore v =
     (let pf = v XOR 2 ^ (LENGTH('a) - Suc 0)
      in pf XOR (mask (LENGTH('a) - Suc 0) * of_bool (bit pf (LENGTH('a) - Suc 0))))"

section \<open>Trie nodes\<close>

text \<open>
  A slot (\<open>ptr_t\<close>) holds one pointer: the address of the shared array \<open>empty_node\<close>
  (\<open>Empty_node\<close>), the address of a stored value (\<open>Val v\<close>, with \<open>v\<close> the value stored
  there), or the address of an array of 16 slots made by \<open>node_add_empty_node\<close>
  (\<open>Next cs\<close>, with \<open>cs\<close> the slots of that array).  Every array and every value is
  owned by one slot, so the slots under \<open>root\<close> form a tree.  Which reading of the union
  applies is fixed by the depth, as in the source.
\<close>

datatype 'v ptr_t = Empty_node | Val 'v | Next "'v ptr_t list"

text \<open>\<open>sizeof(key_type)\<close> is the parameter \<open>sz\<close> of every operation below.\<close>

definition MAX_DEPTH :: "nat \<Rightarrow> nat" where
  "MAX_DEPTH sz = sz * 2"

text \<open>\<open>p == *empty_node\<close>: the slot holds the address of \<open>empty_node\<close>.\<close>

fun is_empty :: "'v ptr_t \<Rightarrow> bool" where
  "is_empty Empty_node = True"
| "is_empty (Val v) = False"
| "is_empty (Next cs) = False"

text \<open>
  \<open>p.next[i]\<close>.  Every slot of \<open>empty_node\<close> points to \<open>empty_node\<close> itself, so reading
  through an empty slot gives an empty slot again.  A value slot is never read as an
  array, since values sit at depth 0 only; that case is given the empty slot.
\<close>

fun next_slot :: "'v ptr_t \<Rightarrow> nat \<Rightarrow> 'v ptr_t" where
  "next_slot (Next cs) i = cs ! i"
| "next_slot Empty_node i = Empty_node"
| "next_slot (Val v) i = Empty_node"

text \<open>
  A pointer to a slot (\<open>ptr_t *\<close>) is the path of digits that leads to the slot from
  \<open>&root\<close>: \<open>[]\<close> is \<open>&root\<close>, and \<open>p->next + i\<close> is \<open>p @ [i]\<close>.  \<open>load\<close> reads through
  such a pointer and \<open>store\<close> writes through it.  The source never writes through a
  pointer that passes an empty or a value slot; \<open>store\<close> leaves the tree as it is there.
\<close>

fun load :: "'v ptr_t \<Rightarrow> nat list \<Rightarrow> 'v ptr_t" where
  "load r [] = r"
| "load r (i # p) = load (next_slot r i) p"

fun store :: "'v ptr_t \<Rightarrow> nat list \<Rightarrow> 'v ptr_t \<Rightarrow> 'v ptr_t" where
  "store r [] x = x"
| "store (Next cs) (i # p) x = Next (cs[i := store (cs ! i) p x])"
| "store Empty_node (i # p) x = Empty_node"
| "store (Val v) (i # p) x = Val v"

definition node_add_empty_node :: "'v ptr_t" where
  "node_add_empty_node = Next (replicate 0x10 Empty_node)"

definition is_node_empty :: "'v ptr_t \<Rightarrow> bool" where
  "is_node_empty node = list_all (\<lambda>i. is_empty (next_slot node i)) [0..<0x10]"

definition bitShift :: "nat \<Rightarrow> nat" where
  "bitShift i = [0, 4] ! i"

definition tetradeValue :: "byte list \<Rightarrow> nat \<Rightarrow> nat" where
  "tetradeValue bytes Nr =
     unat (drop_bit (bitShift (Nr mod 2)) (bytes ! (Nr div 2)) AND 0xF)"

text \<open>
  \<open>memcpy(key_bytes, &key, sizeof(key_type))\<close> and \<open>*(key_type * ) key_bytes\<close> on a
  little-endian machine, the byte order for which the digits of the trie run from the
  most significant tetrade down.
\<close>

definition key_to_bytes :: "nat \<Rightarrow> 'k::len word \<Rightarrow> byte list" where
  "key_to_bytes sz key = map (\<lambda>i. ucast (drop_bit (8 * i) key)) [0..<sz]"

definition bytes_to_key :: "nat \<Rightarrow> byte list \<Rightarrow> 'k::len word" where
  "bytes_to_key sz bytes = horner_sum ucast 256 (take sz bytes)"

definition memset :: "byte list \<Rightarrow> byte \<Rightarrow> nat \<Rightarrow> byte list" where
  "memset bytes c n = replicate n c @ drop n bytes"

subsection \<open>\<open>element_fast_find\<close>, \<open>element_fast_add\<close>\<close>

text \<open>
  The \<open>do \<dots> while (tetradeNr-- > 0)\<close> loops run their body for \<open>tetradeNr\<close>, \<dots>, 0.
\<close>

fun element_fast_find_loop :: "byte list \<Rightarrow> nat \<Rightarrow> nat list \<Rightarrow> nat list" where
  "element_fast_find_loop key_bytes 0 current_Node =
     current_Node @ [tetradeValue key_bytes 0]"
| "element_fast_find_loop key_bytes (Suc t) current_Node =
     element_fast_find_loop key_bytes t (current_Node @ [tetradeValue key_bytes (Suc t)])"

definition element_fast_find :: "nat \<Rightarrow> 'v ptr_t \<Rightarrow> 'k::len word \<Rightarrow> 'v ptr_t" where
  "element_fast_find sz root key =
     load root (element_fast_find_loop (key_to_bytes sz key) (MAX_DEPTH sz - 1) [])"

fun element_fast_add_loop ::
  "byte list \<Rightarrow> nat \<Rightarrow> 'v ptr_t \<Rightarrow> nat list \<Rightarrow> 'v ptr_t \<times> nat list" where
  "element_fast_add_loop key_bytes 0 root current_Node =
     (let root = (if is_empty (load root current_Node)
                  then store root current_Node node_add_empty_node else root)
      in (root, current_Node @ [tetradeValue key_bytes 0]))"
| "element_fast_add_loop key_bytes (Suc t) root current_Node =
     (let root = (if is_empty (load root current_Node)
                  then store root current_Node node_add_empty_node else root)
      in element_fast_add_loop key_bytes t root
           (current_Node @ [tetradeValue key_bytes (Suc t)]))"

text \<open>
  The three overloads differ only in how the value is constructed; \<open>value\<close> is the
  constructed value.  The result is the new tree and the slot \<open>*current_Node\<close>.
\<close>

definition element_fast_add ::
  "nat \<Rightarrow> 'v ptr_t \<Rightarrow> 'k::len word \<Rightarrow> 'v \<Rightarrow> 'v ptr_t \<times> 'v ptr_t" where
  "element_fast_add sz root key value =
     (case element_fast_add_loop (key_to_bytes sz key) (MAX_DEPTH sz - 1) root [] of
        (root, current_Node) \<Rightarrow> (store root current_Node (Val value), Val value))"

section \<open>Iterators\<close>

text \<open>
  \<open>iterator_base\<close> and \<open>const_iterator_base\<close> have the same members and the same code,
  so one model serves both.  \<open>stack\<close> holds pointers to slots, \<open>key_bytes\<close> the radix key
  followed by the overflow byte.  \<open>currentValue\<close> pairs the restored key with the
  reference to the stored value; the reference is modelled by the \<open>val\<close> pointer it
  wraps, and \<open>None\<close> is the pair the constructor makes from the uninitialised buffer
  and \<open>empty_element\<close>.
\<close>

record ('k, 'v) iterator_base =
  stack :: "nat list list"
  depth :: nat
  key_bytes :: "byte list"
  currentValue :: "('k \<times> 'v ptr_t) option"

text \<open>
  \<open>iterator_base(ptr_t *root)\<close> sets \<open>stack[MAX_DEPTH - 1]\<close> only.  The members it leaves
  uninitialised get fixed values here: every constructor of the derived classes sets
  \<open>depth\<close> and \<open>key_bytes\<close> next, and a stack entry is written before it is read.
\<close>

definition iterator_base_root :: "nat \<Rightarrow> ('k, 'v) iterator_base" where
  "iterator_base_root sz =
     \<lparr> stack = (replicate (MAX_DEPTH sz) [])[MAX_DEPTH sz - 1 := []],
       depth = 0,
       key_bytes = replicate (sz + 1) 0,
       currentValue = None \<rparr>"

definition target_valid :: "'v ptr_t \<Rightarrow> ('k, 'v) iterator_base \<Rightarrow> bool" where
  "target_valid root it =
     (depth it = 0 \<and>
      \<not> is_empty (next_slot (load root (stack it ! 0)) (tetradeValue (key_bytes it) 0)))"

fun fill_ptr_stack_loop ::
  "byte list \<Rightarrow> nat \<Rightarrow> nat list \<Rightarrow> nat list list \<Rightarrow> nat list list" where
  "fill_ptr_stack_loop bytes 0 current_Node stk =
     stk[0 := current_Node @ [tetradeValue bytes (0 + 1)]]"
| "fill_ptr_stack_loop bytes (Suc t) current_Node stk =
     (let current_Node = current_Node @ [tetradeValue bytes (Suc t + 1)]
      in fill_ptr_stack_loop bytes t current_Node (stk[Suc t := current_Node]))"

definition fill_ptr_stack :: "nat \<Rightarrow> ('k, 'v) iterator_base \<Rightarrow> ('k, 'v) iterator_base" where
  "fill_ptr_stack sz it =
     it\<lparr>stack := fill_ptr_stack_loop (key_bytes it) (MAX_DEPTH sz - 2)
                    (stack it ! (MAX_DEPTH sz - 1)) (stack it)\<rparr>"

text \<open>
  \<open>for(depth = MAX_DEPTH - 1; depth > 0 && *stack[depth] != *empty_node; depth--);\<close>
\<close>

fun depth_loop :: "'v ptr_t \<Rightarrow> nat list list \<Rightarrow> nat \<Rightarrow> nat" where
  "depth_loop root stk 0 = 0"
| "depth_loop root stk (Suc d) =
     (if \<not> is_empty (load root (stk ! Suc d)) then depth_loop root stk d else Suc d)"

text \<open>
  \<open>iterator_base(ptr_t *root, const key_type &key)\<close>; \<open>key\<close> is the radix key, and
  \<open>restore\<close> is \<open>Ordering::restore\<close>.
\<close>

definition iterator_base_key ::
  "nat \<Rightarrow> ('k::len word \<Rightarrow> 'k word) \<Rightarrow> 'v ptr_t \<Rightarrow> 'k word \<Rightarrow> ('k word, 'v) iterator_base" where
  "iterator_base_key sz restore root key =
     (let it = iterator_base_root sz;
          it = it\<lparr>key_bytes := key_to_bytes sz key @ drop sz (key_bytes it)\<rparr>;
          it = it\<lparr>key_bytes := (key_bytes it)[sz := 0]\<rparr>;
          it = fill_ptr_stack sz it;
          it = it\<lparr>depth := depth_loop root (stack it) (MAX_DEPTH sz - 1)\<rparr>
      in if target_valid root it
         then it\<lparr>currentValue :=
                Some (restore key,
                      next_slot (load root (stack it ! 0)) (tetradeValue (key_bytes it) 0))\<rparr>
         else it)"

text \<open>
  \<open>incrQuartet\<close> and \<open>decrQuartet\<close> change \<open>bytes\<close> in place and return a count; the
  model returns both.  \<open>bytes[i] += c\<close> is addition on \<open>unsigned char\<close>, which wraps.
\<close>

function incrQuartet :: "nat \<Rightarrow> byte list \<Rightarrow> nat \<Rightarrow> byte list \<times> nat" where
  "incrQuartet sz bytes quartetNr =
     (if quartetNr > MAX_DEPTH sz then (bytes, 0)
      else
        let bytes = bytes[quartetNr div 2 :=
                      bytes ! (quartetNr div 2) + push_bit ((quartetNr mod 2) * 4) 1]
        in if drop_bit ((quartetNr mod 2) * 4) (bytes ! (quartetNr div 2)) = 0
           then (case incrQuartet sz bytes (quartetNr + 1 + of_bool (quartetNr mod 2 = 0)) of
                   (bytes, r) \<Rightarrow> (bytes, of_bool (quartetNr mod 2 = 0) + 1 + r))
           else (bytes,
                 of_bool (drop_bit ((quartetNr mod 2) * 4) (bytes ! (quartetNr div 2)) AND 0xF
                          = 0)))"
  by pat_completeness auto
termination
  by (relation "measure (\<lambda>(sz, bytes, quartetNr). MAX_DEPTH sz + 1 - quartetNr)") auto

function decrQuartet :: "nat \<Rightarrow> byte list \<Rightarrow> nat \<Rightarrow> byte list \<times> nat" where
  "decrQuartet sz bytes quartetNr =
     (if quartetNr > MAX_DEPTH sz then (bytes, 0)
      else
        let bytes = bytes[quartetNr div 2 :=
                      bytes ! (quartetNr div 2) - push_bit ((quartetNr mod 2) * 4) 1]
        in if drop_bit ((quartetNr mod 2) * 4) (bytes ! (quartetNr div 2))
              = drop_bit ((quartetNr mod 2) * 4) 0xFF
           then (case decrQuartet sz bytes (quartetNr + 1 + of_bool (quartetNr mod 2 = 0)) of
                   (bytes, r) \<Rightarrow> (bytes, of_bool (quartetNr mod 2 = 0) + 1 + r))
           else (bytes,
                 of_bool (drop_bit ((quartetNr mod 2) * 4) (bytes ! (quartetNr div 2)) AND 0xF
                          = 0xF)))"
  by pat_completeness auto
termination
  by (relation "measure (\<lambda>(sz, bytes, quartetNr). MAX_DEPTH sz + 1 - quartetNr)") auto

declare incrQuartet.simps [simp del] decrQuartet.simps [simp del]

text \<open>
  \<open>increment\<close> and \<open>decrement\<close>.  One pass of the \<open>while\<close> loop that does not return
  leaves the iterator in a state from which the rest of the call is what a fresh call
  does, so the loop and the recursive call at the end are one recursion.  The result is
  \<open>None\<close> when the source does not return.
\<close>

partial_function (option) increment ::
  "nat \<Rightarrow> ('k::len word \<Rightarrow> 'k word) \<Rightarrow> 'v ptr_t \<Rightarrow> ('k word, 'v) iterator_base
   \<Rightarrow> ('k word, 'v) iterator_base option" where
  "increment sz restore root it =
     (if depth it < MAX_DEPTH sz then
        (let it =
           (if depth it \<noteq> 0 \<and>
               \<not> is_empty (next_slot (load root (stack it ! depth it))
                             (tetradeValue (key_bytes it) (depth it)))
            then it\<lparr>stack := (stack it)[depth it - 1 :=
                       stack it ! depth it @ [tetradeValue (key_bytes it) (depth it)]],
                    depth := depth it - 1\<rparr>
            else (case incrQuartet sz (key_bytes it) (depth it) of
                    (bytes, r) \<Rightarrow> it\<lparr>key_bytes := bytes, depth := depth it + r\<rparr>))
         in if depth it = 0 \<and>
               \<not> is_empty (next_slot (load root (stack it ! 0)) (tetradeValue (key_bytes it) 0))
            then Some (it\<lparr>currentValue :=
                   Some (restore (bytes_to_key sz (key_bytes it)),
                         next_slot (load root (stack it ! 0)) (tetradeValue (key_bytes it) 0))\<rparr>)
            else increment sz restore root it)
      else if key_bytes it ! sz = 0xFF then
        increment sz restore root
          (it\<lparr>key_bytes := memset ((key_bytes it)[sz := 0x00]) 0x00 sz,
              depth := MAX_DEPTH sz - 1\<rparr>)
      else Some (it\<lparr>key_bytes := (memset (key_bytes it) 0 sz)[sz := 1]\<rparr>))"

partial_function (option) decrement ::
  "nat \<Rightarrow> ('k::len word \<Rightarrow> 'k word) \<Rightarrow> 'v ptr_t \<Rightarrow> ('k word, 'v) iterator_base
   \<Rightarrow> ('k word, 'v) iterator_base option" where
  "decrement sz restore root it =
     (if depth it < MAX_DEPTH sz then
        (let it =
           (if depth it \<noteq> 0 \<and>
               \<not> is_empty (next_slot (load root (stack it ! depth it))
                             (tetradeValue (key_bytes it) (depth it)))
            then it\<lparr>stack := (stack it)[depth it - 1 :=
                       stack it ! depth it @ [tetradeValue (key_bytes it) (depth it)]],
                    depth := depth it - 1\<rparr>
            else (case decrQuartet sz (key_bytes it) (depth it) of
                    (bytes, r) \<Rightarrow> it\<lparr>key_bytes := bytes, depth := depth it + r\<rparr>))
         in if depth it = 0 \<and>
               \<not> is_empty (next_slot (load root (stack it ! 0)) (tetradeValue (key_bytes it) 0))
            then Some (it\<lparr>currentValue :=
                   Some (restore (bytes_to_key sz (key_bytes it)),
                         next_slot (load root (stack it ! 0)) (tetradeValue (key_bytes it) 0))\<rparr>)
            else decrement sz restore root it)
      else if key_bytes it ! sz = 0x01 then
        decrement sz restore root
          (it\<lparr>key_bytes := memset ((key_bytes it)[sz := 0x00]) 0xFF sz,
              depth := MAX_DEPTH sz - 1\<rparr>)
      else Some (it\<lparr>key_bytes := (memset (key_bytes it) 0 sz)[sz := 0xFF]\<rparr>))"

declare increment.simps [code] decrement.simps [code]

text \<open>
  \<open>erase_elem\<close>: the result is the returned flag, the tree and the iterator.
  \<open>delete[]\<close> frees the array; the slot that pointed to it is then set to \<open>empty_node\<close>.
\<close>

function erase_elem_loop ::
  "nat \<Rightarrow> 'v ptr_t \<Rightarrow> nat list list \<Rightarrow> nat \<Rightarrow> 'v ptr_t \<times> nat" where
  "erase_elem_loop sz root stk d =
     (if d < MAX_DEPTH sz then
        (if is_node_empty (load root (stk ! d))
         then erase_elem_loop sz (store root (stk ! d) Empty_node) stk (d + 1)
         else (root, d))
      else (root, d))"
  by pat_completeness auto
termination
  by (relation "measure (\<lambda>(sz, root, stk, d). MAX_DEPTH sz - d)") auto

declare erase_elem_loop.simps [simp del]

definition erase_elem ::
  "nat \<Rightarrow> 'v ptr_t \<Rightarrow> ('k, 'v) iterator_base \<Rightarrow> bool \<times> 'v ptr_t \<times> ('k, 'v) iterator_base" where
  "erase_elem sz root it =
     (if depth it = 0 then
        (if \<not> is_empty (next_slot (load root (stack it ! 0)) (tetradeValue (key_bytes it) 0))
         then
           (let root = store root (stack it ! 0 @ [tetradeValue (key_bytes it) 0]) Empty_node
            in case erase_elem_loop sz root (stack it) (depth it) of
                 (root, d) \<Rightarrow> (True, root, it\<lparr>depth := d\<rparr>))
         else (False, root, it))
      else (False, root, it))"

text \<open>\<open>operator==\<close>: \<open>memcmp\<close> over the \<open>sizeof(key_type) + 1\<close> bytes of \<open>key_bytes\<close>.\<close>

definition iterator_eq :: "nat \<Rightarrow> ('k, 'v) iterator_base \<Rightarrow> ('k, 'v) iterator_base \<Rightarrow> bool" where
  "iterator_eq sz a b = (take (sz + 1) (key_bytes a) = take (sz + 1) (key_bytes b))"

text \<open>
  The constructors of \<open>iterator\<close> and \<open>const_iterator\<close> (\<open>operator++\<close> is \<open>increment\<close>)
  and of \<open>reverse_iterator\<close> and \<open>const_reverse_iterator\<close> (\<open>operator++\<close> is \<open>decrement\<close>).
\<close>

definition iterator_root :: "nat \<Rightarrow> ('k, 'v) iterator_base" where
  "iterator_root sz =
     (let it = iterator_base_root sz;
          it = it\<lparr>key_bytes := memset (key_bytes it) 0 sz\<rparr>;
          it = it\<lparr>key_bytes := (key_bytes it)[sz := 1]\<rparr>
      in it\<lparr>depth := MAX_DEPTH sz\<rparr>)"

definition iterator_key ::
  "nat \<Rightarrow> ('k::len word \<Rightarrow> 'k word) \<Rightarrow> 'v ptr_t \<Rightarrow> 'k word \<Rightarrow> bool
   \<Rightarrow> ('k word, 'v) iterator_base option" where
  "iterator_key sz restore root key findNext =
     (let it = iterator_base_key sz restore root key
      in if \<not> target_valid root it then
           (if findNext then increment sz restore root it
            else Some (it\<lparr>key_bytes := (memset (key_bytes it) 0 sz)[sz := 1],
                          depth := MAX_DEPTH sz\<rparr>))
         else Some it)"

definition reverse_iterator_root :: "nat \<Rightarrow> ('k, 'v) iterator_base" where
  "reverse_iterator_root sz =
     (let it = iterator_base_root sz;
          it = it\<lparr>key_bytes := memset (key_bytes it) 0 sz\<rparr>;
          it = it\<lparr>key_bytes := (key_bytes it)[sz := 0xFF]\<rparr>
      in it\<lparr>depth := MAX_DEPTH sz\<rparr>)"

definition reverse_iterator_key ::
  "nat \<Rightarrow> ('k::len word \<Rightarrow> 'k word) \<Rightarrow> 'v ptr_t \<Rightarrow> 'k word \<Rightarrow> bool
   \<Rightarrow> ('k word, 'v) iterator_base option" where
  "reverse_iterator_key sz restore root key findNext =
     (let it = iterator_base_key sz restore root key
      in if \<not> target_valid root it then
           (if findNext then decrement sz restore root it
            else Some (it\<lparr>key_bytes := (memset (key_bytes it) 0 sz)[sz := 0xFF],
                          depth := MAX_DEPTH sz\<rparr>))
         else Some it)"

section \<open>The container\<close>

text \<open>
  \<open>element_count\<close> is a \<open>size_type\<close>, taken as 64 bits wide.  The members \<open>end_it\<close>,
  \<open>cend_it\<close>, \<open>rend_it\<close> and \<open>crend_it\<close> are set by the constructor and never
  changed; they are the constants \<open>iterator_root\<close> and \<open>reverse_iterator_root\<close>.  The
  template parameter \<open>Ordering\<close> is a pair of functions.
\<close>

record 'v arraymap =
  root :: "'v ptr_t"
  element_count :: "64 word"

record 'k ordering =
  Ordering_apply :: "'k \<Rightarrow> 'k"
  Ordering_restore :: "'k \<Rightarrow> 'k"

definition arraymap_init :: "'v arraymap" where
  "arraymap_init = \<lparr> root = Empty_node, element_count = 0 \<rparr>"

text \<open>
  \<open>operator[]\<close>; \<open>dflt\<close> is the value \<open>std::construct_at(current_Node->val)\<close> makes.
  The returned reference is given as the \<open>val\<close> pointer.
\<close>

definition operator_index ::
  "nat \<Rightarrow> 'k::len word ordering \<Rightarrow> 'v \<Rightarrow> 'v arraymap \<Rightarrow> 'k word \<Rightarrow> 'v ptr_t \<times> 'v arraymap" where
  "operator_index sz ord dflt m k =
     (let result = element_fast_find sz (root m) (Ordering_apply ord k)
      in if is_empty result then
           (case element_fast_add sz (root m) (Ordering_apply ord k) dflt of
              (r, result) \<Rightarrow>
                (result, m\<lparr>root := r, element_count := element_count m + 1\<rparr>))
         else (result, m))"

definition empty_am :: "'v arraymap \<Rightarrow> bool" where
  "empty_am m = (element_count m = 0)"

text \<open>
  \<open>clear\<close>: \<open>free_node_tree\<close> destroys the values and frees the arrays under \<open>root\<close>
  and writes to no slot; what remains of \<open>clear\<close> are the two assignments.
\<close>

definition clear :: "'v arraymap \<Rightarrow> 'v arraymap" where
  "clear m = m\<lparr>root := Empty_node, element_count := 0\<rparr>"

definition begin_it ::
  "nat \<Rightarrow> 'k::len word ordering \<Rightarrow> 'v arraymap \<Rightarrow> ('k word, 'v) iterator_base option" where
  "begin_it sz ord m =
     iterator_key sz (Ordering_restore ord) (root m)
       (bytes_to_key sz (memset (replicate sz 0) 0 sz)) True"

definition end_it :: "nat \<Rightarrow> ('k, 'v) iterator_base" where
  "end_it sz = iterator_root sz"

definition rbegin_it ::
  "nat \<Rightarrow> 'k::len word ordering \<Rightarrow> 'v arraymap \<Rightarrow> ('k word, 'v) iterator_base option" where
  "rbegin_it sz ord m =
     reverse_iterator_key sz (Ordering_restore ord) (root m)
       (bytes_to_key sz (memset (replicate sz 0) 0xFF sz)) True"

definition rend_it :: "nat \<Rightarrow> ('k, 'v) iterator_base" where
  "rend_it sz = reverse_iterator_root sz"

definition find_am ::
  "nat \<Rightarrow> 'k::len word ordering \<Rightarrow> 'v arraymap \<Rightarrow> 'k word
   \<Rightarrow> ('k word, 'v) iterator_base option" where
  "find_am sz ord m key =
     iterator_key sz (Ordering_restore ord) (root m) (Ordering_apply ord key) False"

definition lower_bound ::
  "nat \<Rightarrow> 'k::len word ordering \<Rightarrow> 'v arraymap \<Rightarrow> 'k word
   \<Rightarrow> ('k word, 'v) iterator_base option" where
  "lower_bound sz ord m key =
     iterator_key sz (Ordering_restore ord) (root m) (Ordering_apply ord key) True"

definition upper_bound ::
  "nat \<Rightarrow> 'k::len word ordering \<Rightarrow> 'v arraymap \<Rightarrow> 'k word
   \<Rightarrow> ('k word, 'v) iterator_base option" where
  "upper_bound sz ord m key =
     (case iterator_key sz (Ordering_restore ord) (root m) (Ordering_apply ord key) False of
        None \<Rightarrow> None
      | Some it \<Rightarrow>
          if iterator_eq sz it (end_it sz)
          then iterator_key sz (Ordering_restore ord) (root m) (Ordering_apply ord key) True
          else increment sz (Ordering_restore ord) (root m) it)"

text \<open>\<open>erase(const key_type&)\<close>: the returned count and the container.\<close>

definition erase ::
  "nat \<Rightarrow> 'k::len word ordering \<Rightarrow> 'v arraymap \<Rightarrow> 'k word \<Rightarrow> (nat \<times> 'v arraymap) option" where
  "erase sz ord m key =
     (case iterator_key sz (Ordering_restore ord) (root m) (Ordering_apply ord key) False of
        None \<Rightarrow> None
      | Some it \<Rightarrow>
          if \<not> iterator_eq sz it (end_it sz) then
            (case erase_elem sz (root m) it of
               (b, r, it) \<Rightarrow> Some (1, m\<lparr>root := r, element_count := element_count m - 1\<rparr>))
          else Some (0, m))"

text \<open>\<open>erase(iterator pos)\<close>: the returned iterator and the container.\<close>

definition erase_pos ::
  "nat \<Rightarrow> 'k::len word ordering \<Rightarrow> 'v arraymap \<Rightarrow> ('k word, 'v) iterator_base
   \<Rightarrow> (('k word, 'v) iterator_base \<times> 'v arraymap) option" where
  "erase_pos sz ord m pos =
     (case erase_elem sz (root m) pos of
        (b, r, pos) \<Rightarrow>
          (let m = m\<lparr>root := r, element_count := element_count m - 1\<rparr>
           in case increment sz (Ordering_restore ord) (root m) pos of
                None \<Rightarrow> None
              | Some pos \<Rightarrow> Some (pos, m)))"

definition size_am :: "'v arraymap \<Rightarrow> 64 word" where
  "size_am m = element_count m"

text \<open>
  \<open>insert(const value_type&)\<close> and \<open>insert(value_type&&)\<close> have the same body; the
  result is the returned pair and the container.
\<close>

definition insert_am ::
  "nat \<Rightarrow> 'k::len word ordering \<Rightarrow> 'v arraymap \<Rightarrow> 'k word \<times> 'v
   \<Rightarrow> (('k word, 'v) iterator_base option \<times> bool) \<times> 'v arraymap" where
  "insert_am sz ord m value =
     (let added = False;
          result = element_fast_find sz (root m) (Ordering_apply ord (fst value));
          (m, added) =
            (if is_empty result then
               (case element_fast_add sz (root m) (Ordering_apply ord (fst value)) (snd value) of
                  (r, result) \<Rightarrow>
                    (m\<lparr>root := r, element_count := element_count m + 1\<rparr>, True))
             else (m, added))
      in ((iterator_key sz (Ordering_restore ord) (root m) (Ordering_apply ord (fst value)) False,
           added), m))"

text \<open>\<open>emplace(args...)\<close> is \<open>insert(value_type(args...))\<close>.\<close>

definition emplace ::
  "nat \<Rightarrow> 'k::len word ordering \<Rightarrow> 'v arraymap \<Rightarrow> 'k word \<times> 'v
   \<Rightarrow> (('k word, 'v) iterator_base option \<times> bool) \<times> 'v arraymap" where
  "emplace sz ord m value = insert_am sz ord m value"

text \<open>\<open>try_emplace(k, args...)\<close>; \<open>v\<close> is the value constructed from \<open>args\<close>.\<close>

definition try_emplace ::
  "nat \<Rightarrow> 'k::len word ordering \<Rightarrow> 'v arraymap \<Rightarrow> 'k word \<Rightarrow> 'v
   \<Rightarrow> (('k word, 'v) iterator_base option \<times> bool) \<times> 'v arraymap" where
  "try_emplace sz ord m k v =
     (let added = False;
          result = element_fast_find sz (root m) (Ordering_apply ord k);
          (m, added) =
            (if is_empty result then
               (case element_fast_add sz (root m) (Ordering_apply ord k) v of
                  (r, result) \<Rightarrow>
                    (m\<lparr>root := r, element_count := element_count m + 1\<rparr>, True))
             else (m, added))
      in ((iterator_key sz (Ordering_restore ord) (root m) (Ordering_apply ord k) False,
           added), m))"

definition contains :: "nat \<Rightarrow> 'k::len word ordering \<Rightarrow> 'v arraymap \<Rightarrow> 'k word \<Rightarrow> bool" where
  "contains sz ord m k =
     (let result = element_fast_find sz (root m) (Ordering_apply ord k)
      in \<not> is_empty result)"

text \<open>
  \<open>begin\<close>, \<open>end\<close>, \<open>rbegin\<close>, \<open>rend\<close>, \<open>empty\<close>, \<open>find\<close>, \<open>size\<close> and \<open>insert\<close> carry a
  suffix, their names being taken in Isabelle/HOL.
\<close>

text \<open>The instances of \<open>ordering_default\<close>.\<close>

definition ordering_default_int8 :: "8 word ordering" where
  "ordering_default_int8 =
     \<lparr> Ordering_apply = ordering_default_apply_int8,
       Ordering_restore = ordering_default_restore_int8 \<rparr>"

definition ordering_default_int16 :: "16 word ordering" where
  "ordering_default_int16 =
     \<lparr> Ordering_apply = ordering_default_apply_int16,
       Ordering_restore = ordering_default_restore_int16 \<rparr>"

definition ordering_default_int32 :: "32 word ordering" where
  "ordering_default_int32 =
     \<lparr> Ordering_apply = ordering_default_apply_int32,
       Ordering_restore = ordering_default_restore_int32 \<rparr>"

definition ordering_default_int64 :: "64 word ordering" where
  "ordering_default_int64 =
     \<lparr> Ordering_apply = ordering_default_apply_int64,
       Ordering_restore = ordering_default_restore_int64 \<rparr>"

definition ordering_default_float :: "32 word ordering" where
  "ordering_default_float =
     \<lparr> Ordering_apply = ordering_default_apply_float,
       Ordering_restore = ordering_default_restore_float \<rparr>"

definition ordering_default_double :: "64 word ordering" where
  "ordering_default_double =
     \<lparr> Ordering_apply = ordering_default_apply_double,
       Ordering_restore = ordering_default_restore_double \<rparr>"

text \<open>The number a byte buffer holds, least significant byte first.\<close>

fun bytes_val :: "byte list \<Rightarrow> nat" where
  "bytes_val [] = 0"
| "bytes_val (b # bs) = unat b + 256 * bytes_val bs"

text \<open>
  The unsigned byte-wise comparison of two radix keys, most significant byte first: the
  lexicographic order on the memory images read from the last byte down.
\<close>

definition radix_bytes_less :: "nat \<Rightarrow> 'k::len word \<Rightarrow> 'k word \<Rightarrow> bool" where
  "radix_bytes_less sz a b = ord_class.lexordp (rev (key_to_bytes sz a)) (rev (key_to_bytes sz b))"

text \<open>
  The native comparison of \<open>float\<close> and \<open>double\<close> is the one of IEEE 754, read off the bit
  pattern: a sign bit, an exponent field and a fraction field of \<open>fb\<close> bits (23 for
  binary32, 52 for binary64).  A pattern whose exponent field is all ones and whose
  fraction is not zero is a NaN and compares false with everything.  The value of any
  other pattern, times the fixed power of two that makes the least subnormal 1, is the
  integer \<open>fp_value\<close>: \<open>f\<close> for a subnormal and \<open>2 ^ (e - 1) * (2 ^ fb + f)\<close> otherwise,
  negated when the sign bit is set; an infinity takes the place above all finite
  values that the same formula gives it.  Both zeros have the value 0.
\<close>

definition fp_sign :: "'a::len word \<Rightarrow> bool" where
  "fp_sign w = bit w (LENGTH('a) - 1)"

definition fp_exponent :: "nat \<Rightarrow> 'a::len word \<Rightarrow> nat" where
  "fp_exponent fb w = unat (take_bit (LENGTH('a) - 1) w) div 2 ^ fb"

definition fp_fraction :: "nat \<Rightarrow> 'a::len word \<Rightarrow> nat" where
  "fp_fraction fb w = unat (take_bit (LENGTH('a) - 1) w) mod 2 ^ fb"

definition fp_is_nan :: "nat \<Rightarrow> 'a::len word \<Rightarrow> bool" where
  "fp_is_nan fb w \<longleftrightarrow>
     fp_exponent fb w = 2 ^ (LENGTH('a) - 1 - fb) - 1 \<and> fp_fraction fb w \<noteq> 0"

definition fp_scaled :: "nat \<Rightarrow> nat \<Rightarrow> nat \<Rightarrow> nat" where
  "fp_scaled fb e f = (if e = 0 then f else 2 ^ (e - 1) * (2 ^ fb + f))"

definition fp_value :: "nat \<Rightarrow> 'a::len word \<Rightarrow> int" where
  "fp_value fb w =
     (if fp_sign w then - int (fp_scaled fb (fp_exponent fb w) (fp_fraction fb w))
      else int (fp_scaled fb (fp_exponent fb w) (fp_fraction fb w)))"

definition fp_less :: "nat \<Rightarrow> 'a::len word \<Rightarrow> 'a word \<Rightarrow> bool" where
  "fp_less fb a b \<longleftrightarrow> \<not> fp_is_nan fb a \<and> \<not> fp_is_nan fb b \<and> fp_value fb a < fp_value fb b"

definition float_less :: "32 word \<Rightarrow> 32 word \<Rightarrow> bool" where
  "float_less a b = fp_less 23 a b"

definition double_less :: "64 word \<Rightarrow> 64 word \<Rightarrow> bool" where
  "double_less a b = fp_less 52 a b"

text \<open>The bits below the sign bit, as a number.\<close>

definition fp_mag :: "'a::len word \<Rightarrow> nat" where
  "fp_mag w = unat (take_bit (LENGTH('a) - 1) w)"

text \<open>
  \<open>npath V hi lo\<close> is the path given by the hexadecimal digits \<open>hi - 1\<close>, \<dots>, \<open>lo\<close> of
  \<open>V\<close>, and \<open>present sz r k\<close> says that the tree \<open>r\<close> holds a value at the leaf slot of the
  radix key with number \<open>k\<close>.
\<close>

definition npath :: "nat \<Rightarrow> nat \<Rightarrow> nat \<Rightarrow> nat list" where
  "npath V hi lo = map (\<lambda>j. V div 16 ^ j mod 16) (rev [lo..<hi])"

definition present :: "nat \<Rightarrow> 'v ptr_t \<Rightarrow> nat \<Rightarrow> bool" where
  "present sz r k = (\<not> is_empty (load r (npath k (2 * sz) 0)))"

text \<open>
  The state of an iterator inside the key range: the overflow byte is 0 and every stack
  entry from \<open>depth\<close> upwards points to the slot on the path of the key in the buffer.
\<close>

definition it_ok :: "nat \<Rightarrow> ('k, 'v) iterator_base \<Rightarrow> bool" where
  "it_ok sz it \<longleftrightarrow>
     length (key_bytes it) = sz + 1 \<and> length (stack it) = 2 * sz
     \<and> bytes_val (key_bytes it) < 16 ^ (2 * sz)
     \<and> (\<forall>d. depth it \<le> d \<and> d < 2 * sz \<longrightarrow>
           stack it ! d = npath (bytes_val (key_bytes it)) (2 * sz) (Suc d))"

text \<open>
  \<open>at_key sz restore r it k\<close>: the iterator denotes the element with radix key number
  \<open>k\<close>.  \<open>found_step\<close> is the test at the end of the loop body of \<open>increment\<close> and
  \<open>decrement\<close>, with \<open>rest\<close> the remainder of the call.
\<close>

definition at_key ::
  "nat \<Rightarrow> ('k::len word \<Rightarrow> 'k word) \<Rightarrow> 'v ptr_t \<Rightarrow> ('k word, 'v) iterator_base \<Rightarrow> nat \<Rightarrow> bool" where
  "at_key sz restore r it k \<longleftrightarrow>
     it_ok sz it \<and> depth it = 0 \<and> bytes_val (key_bytes it) = k \<and> present sz r k
     \<and> currentValue it =
         Some (restore (bytes_to_key sz (key_bytes it)), load r (npath k (2 * sz) 0))"

definition found_step ::
  "nat \<Rightarrow> ('k::len word \<Rightarrow> 'k word) \<Rightarrow> 'v ptr_t \<Rightarrow> ('k word, 'v) iterator_base
   \<Rightarrow> ('k word, 'v) iterator_base option \<Rightarrow> ('k word, 'v) iterator_base option" where
  "found_step sz restore r it1 rest =
     (if depth it1 = 0 \<and>
         \<not> is_empty (next_slot (load r (stack it1 ! 0)) (tetradeValue (key_bytes it1) 0))
      then Some (it1\<lparr>currentValue :=
             Some (restore (bytes_to_key sz (key_bytes it1)),
                   next_slot (load r (stack it1 ! 0)) (tetradeValue (key_bytes it1) 0))\<rparr>)
      else rest)"

text \<open>
  The shape of a tree of slots: a slot at height 0 is empty or holds a value, a slot at
  height \<open>Suc d\<close> is empty or points to an array of 16 slots of height \<open>d\<close>.  The tree under
  \<open>root\<close> has height \<open>MAX_DEPTH\<close>.
\<close>

fun trie_ok :: "nat \<Rightarrow> 'v ptr_t \<Rightarrow> bool" where
  "trie_ok d Empty_node = True"
| "trie_ok d (Val v) = (d = 0)"
| "trie_ok d (Next cs) = (case d of 0 \<Rightarrow> False
                          | Suc d' \<Rightarrow> length cs = 16 \<and> (\<forall>c\<in>set cs. trie_ok d' c))"

text \<open>The number of leaf slots that hold a value.\<close>

fun leaf_count :: "'v ptr_t \<Rightarrow> nat" where
  "leaf_count Empty_node = 0"
| "leaf_count (Val v) = 1"
| "leaf_count (Next cs) = sum_list (map leaf_count cs)"

text \<open>Every array of the tree has a slot that is not empty.\<close>

fun no_empty_node :: "'v ptr_t \<Rightarrow> bool" where
  "no_empty_node Empty_node = True"
| "no_empty_node (Val v) = True"
| "no_empty_node (Next cs) = (\<not> is_node_empty (Next cs) \<and> (\<forall>c\<in>set cs. no_empty_node c))"

text \<open>
  A pointer is good for writing when every slot it passes points to an array and every
  digit is inside that array.
\<close>

fun valid_path :: "'v ptr_t \<Rightarrow> nat list \<Rightarrow> bool" where
  "valid_path r [] = True"
| "valid_path (Next cs) (i # p) = (i < length cs \<and> valid_path (cs ! i) p)"
| "valid_path Empty_node (i # p) = False"
| "valid_path (Val v) (i # p) = False"

text \<open>
  What \<open>element_fast_add\<close> and \<open>erase_elem\<close> do to the subtree they walk, as recursions
  on the path: \<open>ins\<close> makes the missing arrays on the way down and puts the value at the
  end, \<open>del\<close> empties the slot at the end and frees the arrays that became empty on the
  way up.
\<close>

fun ins :: "nat list \<Rightarrow> 'v \<Rightarrow> 'v ptr_t \<Rightarrow> 'v ptr_t" where
  "ins [] v t = Val v"
| "ins (i # p) v (Next cs) = Next (cs[i := ins p v (cs ! i)])"
| "ins (i # p) v Empty_node = Next ((replicate 0x10 Empty_node)[i := ins p v Empty_node])"
| "ins (i # p) v (Val w) = Val w"

fun del :: "nat list \<Rightarrow> 'v ptr_t \<Rightarrow> 'v ptr_t" where
  "del [] t = Empty_node"
| "del (i # p) (Next cs) =
     (if is_node_empty (Next (cs[i := del p (cs ! i)])) then Empty_node
      else Next (cs[i := del p (cs ! i)]))"
| "del (i # p) Empty_node = Empty_node"
| "del (i # p) (Val w) = Val w"

text \<open>The iterator that \<open>iterator_base(ptr_t *root, const key_type &key)\<close> makes.\<close>

definition key_it ::
  "nat \<Rightarrow> 'v ptr_t \<Rightarrow> 'k::len word \<Rightarrow> ('k word, 'v) iterator_base" where
  "key_it sz r key =
     \<lparr> stack = map (\<lambda>d. npath (unat key) (2 * sz) (Suc d)) [0..<2 * sz],
       depth = depth_loop r (map (\<lambda>d. npath (unat key) (2 * sz) (Suc d)) [0..<2 * sz]) (2 * sz - 1),
       key_bytes = key_to_bytes sz key @ [0],
       currentValue = None \<rparr>"

text \<open>
  The loop \<open>for (it = m.begin(); it != m.end(); ++it)\<close> of a caller, collecting
  \<open>*it\<close>; \<open>rtraverse\<close> is the same loop over \<open>rbegin()\<close> and \<open>rend()\<close>.
\<close>

partial_function (option) collect ::
  "nat \<Rightarrow> ('k::len word \<Rightarrow> 'k word) \<Rightarrow> 'v ptr_t \<Rightarrow> ('k word, 'v) iterator_base
   \<Rightarrow> ('k word \<times> 'v ptr_t) option list option" where
  "collect sz restore r it =
     (if iterator_eq sz it (end_it sz) then Some []
      else Option.bind (increment sz restore r it)
             (\<lambda>it'. Option.bind (collect sz restore r it')
                (\<lambda>xs. Some (currentValue it # xs))))"

partial_function (option) rcollect ::
  "nat \<Rightarrow> ('k::len word \<Rightarrow> 'k word) \<Rightarrow> 'v ptr_t \<Rightarrow> ('k word, 'v) iterator_base
   \<Rightarrow> ('k word \<times> 'v ptr_t) option list option" where
  "rcollect sz restore r it =
     (if iterator_eq sz it (rend_it sz) then Some []
      else Option.bind (decrement sz restore r it)
             (\<lambda>it'. Option.bind (rcollect sz restore r it')
                (\<lambda>xs. Some (currentValue it # xs))))"

declare collect.simps [code] rcollect.simps [code]

definition traverse ::
  "nat \<Rightarrow> 'k::len word ordering \<Rightarrow> 'v arraymap \<Rightarrow> ('k word \<times> 'v ptr_t) option list option" where
  "traverse sz ord m =
     Option.bind (begin_it sz ord m) (collect sz (Ordering_restore ord) (root m))"

definition rtraverse ::
  "nat \<Rightarrow> 'k::len word ordering \<Rightarrow> 'v arraymap \<Rightarrow> ('k word \<times> 'v ptr_t) option list option" where
  "rtraverse sz ord m =
     Option.bind (rbegin_it sz ord m) (rcollect sz (Ordering_restore ord) (root m))"

text \<open>
  The states of a container: the state the constructor makes and every state a public
  mutating operation makes from a state of the container.  \<open>erase(iterator pos)\<close> is
  called with an iterator that denotes an element of the container: it is at depth 0
  with a leaf slot that is not empty (\<open>target_valid\<close>), and its stack points to the
  slots on the path of the key in its buffer (\<open>it_ok\<close>).  \<open>dflt\<close> is the value that
  \<open>operator[]\<close> constructs for a new key.
\<close>

inductive reachable :: "nat \<Rightarrow> 'k::len word ordering \<Rightarrow> 'v arraymap \<Rightarrow> bool"
  for sz :: nat and ord :: "'k word ordering" where
  reachable_init: "reachable sz ord arraymap_init"
| reachable_insert: "reachable sz ord m \<Longrightarrow> reachable sz ord (snd (insert_am sz ord m kv))"
| reachable_emplace: "reachable sz ord m \<Longrightarrow> reachable sz ord (snd (emplace sz ord m kv))"
| reachable_try_emplace:
    "reachable sz ord m \<Longrightarrow> reachable sz ord (snd (try_emplace sz ord m k v))"
| reachable_operator_index:
    "reachable sz ord m \<Longrightarrow> reachable sz ord (snd (operator_index sz ord dflt m k))"
| reachable_erase:
    "reachable sz ord m \<Longrightarrow> erase sz ord m k = Some (n, m') \<Longrightarrow> reachable sz ord m'"
| reachable_erase_pos:
    "reachable sz ord m \<Longrightarrow> it_ok sz pos \<Longrightarrow> target_valid (root m) pos \<Longrightarrow>
     erase_pos sz ord m pos = Some (pos', m') \<Longrightarrow> reachable sz ord m'"
| reachable_clear: "reachable sz ord m \<Longrightarrow> reachable sz ord (clear m)"

text \<open>
  The invariant: the tree has the shape of a trie of height \<open>MAX_DEPTH\<close>, no array of it
  is empty, and \<open>element_count\<close> is the number of leaf slots that hold a value.
\<close>

definition arraymap_inv :: "nat \<Rightarrow> 'v arraymap \<Rightarrow> bool" where
  "arraymap_inv sz m \<longleftrightarrow>
     trie_ok (MAX_DEPTH sz) (root m) \<and> no_empty_node (root m)
     \<and> element_count m = of_nat (leaf_count (root m))"

definition last_it :: "nat \<Rightarrow> ('k, 'v) iterator_base" where
  "last_it sz = \<lparr> stack = replicate (2 * sz) [], depth = 2 * sz - 1,
                  key_bytes = replicate sz 0xFF @ [0], currentValue = None \<rparr>"

section \<open>Facts about the ordering transform\<close>

lemma flip_sign_involution: "flip_sign (flip_sign v) = v"
  by (simp add: flip_sign_def xor.assoc)

lemma fp_restore_apply: "fp_restore (fp_apply v) = v"
  by (rule bit_word_eqI) (auto simp: fp_apply_def fp_restore_def Let_def bit_simps)

lemma fp_apply_restore: "fp_apply (fp_restore v) = v"
  by (rule bit_word_eqI) (auto simp: fp_apply_def fp_restore_def Let_def bit_simps)

lemma apply_int64_flip: "ordering_default_apply_int64 = flip_sign"
  and restore_int64_flip: "ordering_default_restore_int64 = flip_sign"
  and apply_int32_flip: "ordering_default_apply_int32 = flip_sign"
  and restore_int32_flip: "ordering_default_restore_int32 = flip_sign"
  and apply_int16_flip: "ordering_default_apply_int16 = flip_sign"
  and restore_int16_flip: "ordering_default_restore_int16 = flip_sign"
  and apply_int8_flip: "ordering_default_apply_int8 = flip_sign"
  and restore_int8_flip: "ordering_default_restore_int8 = flip_sign"
  by (rule ext, simp add: flip_sign_def ordering_default_apply_int64_def
      ordering_default_restore_int64_def ordering_default_apply_int32_def
      ordering_default_restore_int32_def ordering_default_apply_int16_def
      ordering_default_restore_int16_def ordering_default_apply_int8_def
      ordering_default_restore_int8_def)+

lemma float_sign_test: "((w::32 word) AND 0x80000000 = 0) = (\<not> bit w 31)"
  using and_exp_eq_0_iff_not_bit[of w 31] by simp

lemma double_sign_test: "((w::64 word) AND 0x8000000000000000 = 0) = (\<not> bit w 63)"
  using and_exp_eq_0_iff_not_bit[of w 63] by simp

lemma apply_float_fp: "ordering_default_apply_float = fp_apply"
  by (rule ext)
    (simp add: ordering_default_apply_float_def fp_apply_def Let_def float_sign_test
      mask_eq_exp_minus_1)

lemma restore_float_fp: "ordering_default_restore_float = fp_restore"
  by (rule ext)
    (simp add: ordering_default_restore_float_def fp_restore_def Let_def float_sign_test
      mask_eq_exp_minus_1)

lemma apply_double_fp: "ordering_default_apply_double = fp_apply"
  by (rule ext)
    (simp add: ordering_default_apply_double_def fp_apply_def Let_def double_sign_test
      mask_eq_exp_minus_1)

lemma restore_double_fp: "ordering_default_restore_double = fp_restore"
  by (rule ext)
    (simp add: ordering_default_restore_double_def fp_restore_def Let_def double_sign_test
      mask_eq_exp_minus_1)

text \<open>
  Claim C3.  For every key \<open>k\<close> of a supported key type (the four signed integer
  widths, \<open>float\<close> and \<open>double\<close>), \<open>restore (apply k)\<close> is \<open>k\<close> bit for bit, and
  \<open>apply (restore r)\<close> is \<open>r\<close>: under \<open>ordering_default\<close>, \<open>apply\<close> and \<open>restore\<close> are
  mutual inverses.
\<close>

theorem ordering_default_mutual_inverses:
  "ordering_default_restore_int64 (ordering_default_apply_int64 k64) = k64
   \<and> ordering_default_apply_int64 (ordering_default_restore_int64 k64) = k64
   \<and> ordering_default_restore_int32 (ordering_default_apply_int32 k32) = k32
   \<and> ordering_default_apply_int32 (ordering_default_restore_int32 k32) = k32
   \<and> ordering_default_restore_int16 (ordering_default_apply_int16 k16) = k16
   \<and> ordering_default_apply_int16 (ordering_default_restore_int16 k16) = k16
   \<and> ordering_default_restore_int8 (ordering_default_apply_int8 k8) = k8
   \<and> ordering_default_apply_int8 (ordering_default_restore_int8 k8) = k8
   \<and> ordering_default_restore_float (ordering_default_apply_float f) = f
   \<and> ordering_default_apply_float (ordering_default_restore_float f) = f
   \<and> ordering_default_restore_double (ordering_default_apply_double d) = d
   \<and> ordering_default_apply_double (ordering_default_restore_double d) = d"
  by (simp add: apply_int64_flip restore_int64_flip apply_int32_flip restore_int32_flip
      apply_int16_flip restore_int16_flip apply_int8_flip restore_int8_flip
      apply_float_fp restore_float_fp apply_double_fp restore_double_fp
      flip_sign_involution fp_restore_apply fp_apply_restore)

section \<open>The container on concrete keys\<close>

text \<open>
  Claim C6 at a 16-bit key.  The container holds the one key 256 (radix key \<open>0x8100\<close>).
  \<open>lower_bound(5)\<close> and \<open>upper_bound(5)\<close> (radix key \<open>0x8005\<close>) should denote that
  element, the first one not below 5; both return the past-the-end position.  The
  search starts at the deepest empty slot on the path of \<open>0x8005\<close> with the lower
  digits of the key still in the buffer, so after the carry into digit 2 it looks for
  \<open>0x8105\<close> and upwards and passes \<open>0x8100\<close>.
\<close>

theorem lower_bound_misses_element:
  "(let m = snd (insert_am 2 ordering_default_int16 arraymap_init (256, ''x''))
    in contains 2 ordering_default_int16 m 256
       \<and> map_option currentValue (find_am 2 ordering_default_int16 m 256)
           = Some (Some (256, Val ''x''))
       \<and> map_option key_bytes (lower_bound 2 ordering_default_int16 m 5)
           = Some (key_bytes (end_it 2 :: (16 word, string) iterator_base))
       \<and> map_option key_bytes (upper_bound 2 ordering_default_int16 m 5)
           = Some (key_bytes (end_it 2 :: (16 word, string) iterator_base)))"
  by code_simp

text \<open>
  The example of the claim, on 8-bit keys: with \<open>-5\<close>, \<open>0\<close> and \<open>5\<close> present,
  \<open>lower_bound(0)\<close> denotes the element with key 0 and \<open>upper_bound(0)\<close> the element
  with key 5.
\<close>

lemma bounds_example_int8:
  "(let m = snd (insert_am 1 ordering_default_int8
                  (snd (insert_am 1 ordering_default_int8
                     (snd (insert_am 1 ordering_default_int8 arraymap_init (- 5, ''a'')))
                     (0, ''b''))) (5, ''c''))
    in map_option currentValue (lower_bound 1 ordering_default_int8 m 0)
         = Some (Some (0, Val ''b''))
     \<and> map_option currentValue (upper_bound 1 ordering_default_int8 m 0)
         = Some (Some (5, Val ''c'')))"
  by code_simp

section \<open>Byte buffers as numbers\<close>

lemma bytes_val_bound: "bytes_val bs < 256 ^ length bs"
proof (induction bs)
  case Nil then show ?case by simp
next
  case (Cons b bs)
  have "unat b < 256" using unsigned_less[of b] by simp
  with Cons show ?case by simp
qed

lemma bytes_val_append: "bytes_val (xs @ ys) = bytes_val xs + 256 ^ length xs * bytes_val ys"
  by (induction xs) (simp_all add: algebra_simps)

lemma bytes_val_split:
  assumes "i < length bs"
  shows "bytes_val bs = bytes_val (take i bs) + 256 ^ i * (unat (bs ! i) + 256 * bytes_val (drop (Suc i) bs))"
proof -
  have "bs = take i bs @ (bs ! i) # drop (Suc i) bs"
    using assms by (simp add: id_take_nth_drop)
  then have "bytes_val bs = bytes_val (take i bs @ (bs ! i) # drop (Suc i) bs)" by simp
  also have "\<dots> = bytes_val (take i bs) + 256 ^ i * (unat (bs ! i) + 256 * bytes_val (drop (Suc i) bs))"
    using assms by (simp only: bytes_val_append bytes_val.simps length_take min.absorb2 less_imp_le)
  finally show ?thesis .
qed

lemma bytes_val_nth:
  assumes "i < length bs"
  shows "unat (bs ! i) = bytes_val bs div 256 ^ i mod 256"
proof -
  have b: "bytes_val (take i bs) < 256 ^ i"
    using bytes_val_bound[of "take i bs"] assms by simp
  have u: "unat (bs ! i) < 256" using unsigned_less[of "bs ! i"] by simp
  show ?thesis
    using b u by (simp add: bytes_val_split[OF assms])
qed

lemma bytes_val_update:
  assumes "i < length bs"
  shows "bytes_val (bs[i := b]) + unat (bs ! i) * 256 ^ i = bytes_val bs + unat b * 256 ^ i"
proof -
  have "bytes_val (bs[i := b]) = bytes_val (take i bs) + 256 ^ i * (unat b + 256 * bytes_val (drop (Suc i) bs))"
    using assms bytes_val_split[of i "bs[i := b]"] by simp
  then show ?thesis
    by (simp add: bytes_val_split[OF assms] algebra_simps)
qed

lemma unat_and_0xF: "unat ((w::byte) AND 0xF) = unat w mod 16"
proof -
  have "w AND 0xF = take_bit 4 w"
    by (simp add: take_bit_eq_mask mask_eq_exp_minus_1)
  then have "unat (w AND 0xF) = take_bit 4 (unat w)"
    by (simp only: unsigned_take_bit_eq)
  then show ?thesis
    by (simp add: take_bit_eq_mod)
qed

lemma unat_drop_bit_div: "unat (drop_bit n (w::byte)) = unat w div 2 ^ n"
proof -
  have "unat (drop_bit n w) = drop_bit n (unat w)"
    by (rule unat_drop_bit_eq)
  then show ?thesis by (simp add: drop_bit_eq_div)
qed

lemma div_256_16:
  "(v::nat) div 256 ^ i mod 256 div 16 ^ e mod 16 = v div 16 ^ (2 * i + e) mod 16" if "e < 2"
proof -
  define x where "x = v div 256 ^ i"
  have p: "v div 16 ^ (2 * i + e) = x div 16 ^ e"
    by (simp add: x_def power_add power_mult div_mult2_eq)
  from that consider "e = 0" | "e = 1" by linarith
  then have "x mod 256 div 16 ^ e mod 16 = x div 16 ^ e mod 16"
  proof cases
    case 1
    then show ?thesis by (simp add: mod_mod_cancel)
  next
    case 2
    have "x mod 256 div 16 = x div 16 mod 16"
      using mod_mult2_eq[of x 16 16] by simp
    with 2 show ?thesis by simp
  qed
  then show ?thesis by (simp only: p x_def)
qed

lemma tetradeValue_val:
  assumes "j div 2 < length bs"
  shows "tetradeValue bs j = bytes_val bs div 16 ^ j mod 16"
proof -
  have sh: "bitShift (j mod 2) = 4 * (j mod 2)"
    by (cases "j mod 2 = 0") (auto simp: bitShift_def mod2_eq_if)
  have "tetradeValue bs j = unat (bs ! (j div 2)) div 16 ^ (j mod 2) mod 16"
    unfolding tetradeValue_def sh
    by (simp add: unat_and_0xF unat_drop_bit_div power_mult)
  also have "\<dots> = bytes_val bs div 256 ^ (j div 2) mod 256 div 16 ^ (j mod 2) mod 16"
    by (simp add: bytes_val_nth[OF assms])
  also have "\<dots> = bytes_val bs div 16 ^ (2 * (j div 2) + j mod 2) mod 16"
    by (rule div_256_16) simp
  finally show ?thesis by simp
qed

lemma unat_byte_lt: "unat (b::byte) < 256"
  using unsigned_less[of b] by simp

lemma unat_byte_add: "unat ((b::byte) + c) = (unat b + unat c) mod 256"
  by (simp add: unat_word_ariths)

lemma byte_eq_0_iff: "((b::byte) = 0) = (unat b = 0)"
  by (simp add: unsigned_eq_0_iff)

lemma add_pow_div_mod:
  "((x::nat) + 256 ^ Suc i) div 256 ^ i mod 256 = x div 256 ^ i mod 256"
proof -
  have "(x + 256 ^ Suc i) div 256 ^ i = (x + 256 * 256 ^ i) div 256 ^ i"
    by simp
  also have "\<dots> = x div 256 ^ i + 256"
    using div_mult_self1[of "256 ^ i" x "256::nat"] by (simp add: mult.commute)
  finally show ?thesis by simp
qed

lemma digit_times_le: "((T::nat) div P mod 256) * P \<le> T"
proof -
  have "(T div P mod 256) * P \<le> (T div P) * P"
    by (rule mult_le_mono1) simp
  also have "\<dots> \<le> T" by simp
  finally show ?thesis .
qed

lemma pow16_even: "(16::nat) ^ (2 * i) = 256 ^ i"
  by (simp add: power_mult)

lemma digit_lo:
  assumes "i < length bs"
  shows "bytes_val bs div 16 ^ (2 * i) mod 16 = unat (bs ! i) mod 16"
  using div_256_16[of 0 "bytes_val bs" i] bytes_val_nth[OF assms] by simp

lemma digit_hi:
  assumes "i < length bs"
  shows "bytes_val bs div 16 ^ (2 * i + 1) mod 16 = unat (bs ! i) div 16"
proof -
  have "unat (bs ! i) div 16 < 16" using unat_byte_lt[of "bs ! i"] by simp
  then show ?thesis
    using div_256_16[of 1 "bytes_val bs" i] bytes_val_nth[OF assms] by simp
qed

lemma mod_pow_Suc_zero:
  assumes "(y::nat) mod 16 = 0" "y div 16 mod 16 ^ r = 0"
  shows "y mod 16 ^ (Suc r) = 0"
  using assms mod_mult2_eq[of y 16 "16 ^ r"] by simp

lemma byte_val_le:
  assumes "i < length bs"
  shows "unat (bs ! i) * 256 ^ i \<le> bytes_val bs"
  unfolding bytes_val_nth[OF assms] by (rule digit_times_le)

section \<open>The digit counter\<close>

lemma div_pow_add: "(x::nat) div 16 ^ (q + k) = x div 16 ^ q div 16 ^ k"
  by (simp add: power_add div_mult2_eq)

lemma incrQuartet_spec:
  assumes "length bs = sz + 1" "q \<le> 2 * sz" "bytes_val bs + 16 ^ q < 256 ^ (sz + 1)"
  shows "\<exists>bs' r. incrQuartet sz bs q = (bs', r) \<and> length bs' = sz + 1
           \<and> bytes_val bs' = bytes_val bs + 16 ^ q
           \<and> bytes_val bs' div 16 ^ q mod 16 ^ r = 0
           \<and> bytes_val bs' div 16 ^ (q + r) mod 16 \<noteq> 0"
  using assms
proof (induction "2 * sz + 2 - q" arbitrary: bs q rule: less_induct)
  case less
  define i where "i = q div 2"
  define T where "T = bytes_val bs"
  define b where "b = unat (bs ! i)"
  have i: "i < length bs" using less.prems by (simp add: i_def)
  have nguard: "\<not> q > MAX_DEPTH sz" using less.prems by (simp add: MAX_DEPTH_def)
  have b256: "b < 256" unfolding b_def by (rule unat_byte_lt)
  have Tge: "b * 256 ^ i \<le> T" unfolding b_def T_def by (rule byte_val_le[OF i])
  have bound: "T + 16 ^ q < 256 ^ (sz + 1)" using less.prems by (simp add: T_def)
  show ?case
  proof (cases "even q")
    case True
    then have q2: "q = 2 * i" by (simp add: i_def)
    have p16: "(16::nat) ^ q = 256 ^ i" by (simp add: q2 power_mult)
    define bs1 where "bs1 = bs[i := bs ! i + 1]"
    have len1: "length bs1 = sz + 1" using less.prems by (simp add: bs1_def)
    have u1: "unat (bs1 ! i) = (b + 1) mod 256"
      using i by (simp add: bs1_def b_def unat_byte_add)
    have T1: "bytes_val bs1 + b * 256 ^ i = T + ((b + 1) mod 256) * 256 ^ i"
      using bytes_val_update[OF i, of "bs ! i + 1"] u1 i by (simp add: bs1_def b_def T_def)
    show ?thesis
    proof (cases "b = 255")
      case b255: True
      have z: "bs1 ! i = 0" using u1 b255 by (simp add: byte_eq_0_iff)
      have T1': "bytes_val bs1 + 255 * 256 ^ i = T" using T1 b255 by simp
      have "256 ^ Suc i \<le> T + 256 ^ i" using Tge b255 by simp
      then have "(256::nat) ^ Suc i < 256 ^ (sz + 1)" using bound unfolding p16 by (rule le_less_trans)
      then have "(256::nat) ^ Suc i < 256 ^ Suc sz" by (simp only: Suc_eq_plus1)
      then have isz: "i < sz" by (simp only: power_strict_increasing_iff one_less_numeral_iff semiring_norm Suc_less_eq)
      have step: "incrQuartet sz bs q =
          (case incrQuartet sz bs1 (q + 2) of (bytes, r) \<Rightarrow> (bytes, 2 + r))"
        using nguard True z
        by (subst incrQuartet.simps) (simp add: Let_def bs1_def i_def)
      have "\<exists>bs' r. incrQuartet sz bs1 (q + 2) = (bs', r) \<and> length bs' = sz + 1
           \<and> bytes_val bs' = bytes_val bs1 + 16 ^ (q + 2)
           \<and> bytes_val bs' div 16 ^ (q + 2) mod 16 ^ r = 0
           \<and> bytes_val bs' div 16 ^ (q + 2 + r) mod 16 \<noteq> 0"
      proof (rule less.hyps)
        show "2 * sz + 2 - (q + 2) < 2 * sz + 2 - q" using less.prems by simp
        show "length bs1 = sz + 1" by (rule len1)
        show "q + 2 \<le> 2 * sz" using isz q2 by simp
        have "bytes_val bs1 + 16 ^ (q + 2) = T + 16 ^ q"
          using T1' by (simp add: p16 power_add)
        then show "bytes_val bs1 + 16 ^ (q + 2) < 256 ^ (sz + 1)" using bound by simp
      qed
      then obtain bs' r where rec: "incrQuartet sz bs1 (q + 2) = (bs', r)"
        and len': "length bs' = sz + 1"
        and val': "bytes_val bs' = bytes_val bs1 + 16 ^ (q + 2)"
        and r1: "bytes_val bs' div 16 ^ (q + 2) mod 16 ^ r = 0"
        and r2: "bytes_val bs' div 16 ^ (q + 2 + r) mod 16 \<noteq> 0" by (elim exE conjE)
      have val: "bytes_val bs' = T + 16 ^ q"
        using T1' val' by (simp add: p16 power_add)
      define y where "y = bytes_val bs' div 16 ^ q"
      have "y mod 256 = bytes_val bs1 div 256 ^ i mod 256"
        unfolding y_def val' p16 using add_pow_div_mod[of "bytes_val bs1" i]
        by (simp add: power_add p16)
      also have "\<dots> = 0"
        using bytes_val_nth[of i bs1] len1 i z less.prems by simp
      finally have y0: "y mod 256 = 0" .
      have y1: "y div 256 mod 16 ^ r = 0"
        using r1 div_pow_add[of "bytes_val bs'" q 2] by (simp add: y_def)
      have "y mod (256 * 16 ^ r) = 0"
        using y0 y1 mod_mult2_eq[of y 256 "16 ^ r"] by simp
      then have R1: "bytes_val bs' div 16 ^ q mod 16 ^ (2 + r) = 0"
        by (simp add: y_def power_add)
      have R2: "bytes_val bs' div 16 ^ (q + (2 + r)) mod 16 \<noteq> 0"
        using r2 by (simp add: add.assoc)
      show ?thesis
        using step rec len' val R1 R2 by (simp add: T_def)
    next
      case False
      then have u1': "unat (bs1 ! i) = b + 1" using u1 b256 by simp
      have T1': "bytes_val bs1 = T + 16 ^ q" using T1 False b256 by (simp add: p16)
      have nz: "bs1 ! i \<noteq> 0" using u1' by (simp add: byte_eq_0_iff)
      have step: "incrQuartet sz bs q = (bs1, of_bool ((b + 1) mod 16 = 0))"
        using nguard True nz u1'
        by (subst incrQuartet.simps)
          (simp add: Let_def bs1_def[symmetric] i_def[symmetric] byte_eq_0_iff unat_and_0xF)
      have i1: "i < length bs1" using i by (simp add: bs1_def)
      have dlo: "bytes_val bs1 div 16 ^ q mod 16 = (b + 1) mod 16"
        using digit_lo[OF i1] u1' by (simp add: q2)
      have dhi: "bytes_val bs1 div 16 ^ (q + 1) mod 16 = (b + 1) div 16"
        using digit_hi[OF i1] u1' by (simp add: q2)
      show ?thesis
      proof (cases "(b + 1) mod 16 = 0")
        case True
        then have "(b + 1) div 16 \<noteq> 0" by auto
        then show ?thesis
          using step len1 T1' dlo dhi True by (simp add: T_def)
      next
        case False
        then show ?thesis
          using step len1 T1' dlo by (simp add: T_def)
      qed
    qed
  next
    case False
    then have q2: "q = 2 * i + 1" by (simp add: i_def)
    have p16: "(16::nat) ^ q = 16 * 256 ^ i" by (simp add: q2 power_mult)
    define bs1 where "bs1 = bs[i := bs ! i + 16]"
    have len1: "length bs1 = sz + 1" using less.prems by (simp add: bs1_def)
    have i1: "i < length bs1" using i by (simp add: bs1_def)
    have u1: "unat (bs1 ! i) = (b + 16) mod 256"
      using i by (simp add: bs1_def b_def unat_byte_add)
    have T1: "bytes_val bs1 + b * 256 ^ i = T + ((b + 16) mod 256) * 256 ^ i"
      using bytes_val_update[OF i, of "bs ! i + 16"] u1 i by (simp add: bs1_def b_def T_def)
    have dhi: "bytes_val bs1 div 16 ^ q mod 16 = (b + 16) mod 256 div 16"
      using digit_hi[OF i1] u1 by (simp add: q2)
    have qm: "q mod 2 = 1" using False by presburger
    show ?thesis
    proof (cases "240 \<le> b")
      case True
      then have u1': "unat (bs1 ! i) = b - 240" using u1 b256
        by (simp add: mod_if)
      have z: "drop_bit 4 (bs1 ! i) = 0"
        using u1' b256 by (simp add: byte_eq_0_iff unat_drop_bit_div)
      have T1': "bytes_val bs1 + 240 * 256 ^ i = T"
      proof -
        have "bytes_val bs1 + b * 256 ^ i = T + (b - 240) * 256 ^ i"
          using T1 u1 u1' by simp
        moreover have "b * 256 ^ i = (b - 240) * 256 ^ i + 240 * 256 ^ i"
          using True by (simp flip: add_mult_distrib)
        ultimately show ?thesis by simp
      qed
      have "256 ^ Suc i \<le> T + 16 * 256 ^ i" using T1' by simp
      then have "(256::nat) ^ Suc i < 256 ^ (sz + 1)" using bound unfolding p16 by (rule le_less_trans)
      then have "(256::nat) ^ Suc i < 256 ^ Suc sz" by (simp only: Suc_eq_plus1)
      then have isz: "i < sz" by (simp only: power_strict_increasing_iff one_less_numeral_iff semiring_norm Suc_less_eq)
      have step: "incrQuartet sz bs q =
          (case incrQuartet sz bs1 (q + 1) of (bytes, r) \<Rightarrow> (bytes, 1 + r))"
        using nguard qm z
        by (subst incrQuartet.simps) (simp add: Let_def bs1_def i_def)
      have "\<exists>bs' r. incrQuartet sz bs1 (q + 1) = (bs', r) \<and> length bs' = sz + 1
           \<and> bytes_val bs' = bytes_val bs1 + 16 ^ (q + 1)
           \<and> bytes_val bs' div 16 ^ (q + 1) mod 16 ^ r = 0
           \<and> bytes_val bs' div 16 ^ (q + 1 + r) mod 16 \<noteq> 0"
      proof (rule less.hyps)
        show "2 * sz + 2 - (q + 1) < 2 * sz + 2 - q" using less.prems by simp
        show "length bs1 = sz + 1" by (rule len1)
        show "q + 1 \<le> 2 * sz" using isz q2 by simp
        have "bytes_val bs1 + 16 ^ (q + 1) = T + 16 ^ q"
          using T1' by (simp add: p16)
        then show "bytes_val bs1 + 16 ^ (q + 1) < 256 ^ (sz + 1)" using bound by simp
      qed
      then obtain bs' r where rec: "incrQuartet sz bs1 (q + 1) = (bs', r)"
        and len': "length bs' = sz + 1"
        and val': "bytes_val bs' = bytes_val bs1 + 16 ^ (q + 1)"
        and r1: "bytes_val bs' div 16 ^ (q + 1) mod 16 ^ r = 0"
        and r2: "bytes_val bs' div 16 ^ (q + 1 + r) mod 16 \<noteq> 0" by (elim exE conjE)
      have val: "bytes_val bs' = T + 16 ^ q"
        using T1' val' by (simp add: p16)
      have i': "i < length bs'" using len' i less.prems by simp
      define y where "y = bytes_val bs' div 16 ^ q"
      have "bytes_val bs' div 256 ^ i mod 256 = bytes_val bs1 div 256 ^ i mod 256"
        unfolding val' using add_pow_div_mod[of "bytes_val bs1" i] by (simp add: p16)
      then have "unat (bs' ! i) = unat (bs1 ! i)"
        using bytes_val_nth[OF i'] bytes_val_nth[OF i1] by simp
      then have "y mod 16 = unat (bs1 ! i) div 16"
        using digit_hi[OF i'] by (simp add: y_def q2)
      then have y0: "y mod 16 = 0" using u1' b256 by simp
      have y1: "y div 16 mod 16 ^ r = 0"
        using r1 div_pow_add[of "bytes_val bs'" q 1] by (simp add: y_def)
      have R1: "bytes_val bs' div 16 ^ q mod 16 ^ (1 + r) = 0"
        using mod_pow_Suc_zero[OF y0 y1] by (simp add: y_def)
      have R2: "bytes_val bs' div 16 ^ (q + (1 + r)) mod 16 \<noteq> 0"
        using r2 by (simp add: add.assoc)
      show ?thesis
        using step rec len' val R1 R2 by (simp add: T_def)
    next
      case False
      then have u1': "unat (bs1 ! i) = b + 16" using u1 by simp
      have "bytes_val bs1 + b * 256 ^ i = T + b * 256 ^ i + 16 * 256 ^ i"
        using T1 u1 u1' by (simp add: add_mult_distrib)
      then have T1': "bytes_val bs1 = T + 16 ^ q" by (simp add: p16)
      have d: "unat (bs1 ! i) div 16 \<noteq> 0" "unat (bs1 ! i) div 16 < 16"
        using u1' False by simp_all
      have nz: "drop_bit 4 (bs1 ! i) \<noteq> 0"
        using d by (simp add: byte_eq_0_iff unat_drop_bit_div)
      have nz2: "drop_bit 4 (bs1 ! i) AND 0xF \<noteq> 0"
        using d by (simp add: byte_eq_0_iff unat_and_0xF unat_drop_bit_div)
      have step: "incrQuartet sz bs q = (bs1, 0)"
        using nguard qm nz nz2
        by (subst incrQuartet.simps) (simp add: Let_def bs1_def i_def)
      show ?thesis
        using step len1 T1' dhi u1' d by (simp add: T_def)
    qed
  qed
qed

section \<open>Order preservation of the transform\<close>

lemma lexordp_snoc:
  assumes "length us = length vs"
  shows "ord_class.lexordp (us @ [x]) (vs @ [y]) \<longleftrightarrow> ord_class.lexordp us vs \<or> (us = vs \<and> x < (y::'a::linorder))"
  using assms by (induction us vs rule: list_induct2) auto

lemma bytes_val_inj:
  assumes "length xs = length ys" "bytes_val xs = bytes_val ys"
  shows "xs = ys"
  using assms
proof (induction xs ys rule: list_induct2)
  case Nil then show ?case by simp
next
  case (Cons x xs y ys)
  have lx: "unat x < 256" and ly: "unat y < 256" by (rule unat_byte_lt)+
  from Cons.prems have e: "unat x + 256 * bytes_val xs = unat y + 256 * bytes_val ys" by simp
  from e have "(unat x + 256 * bytes_val xs) mod 256 = (unat y + 256 * bytes_val ys) mod 256"
    by (rule arg_cong)
  with lx ly have ux: "unat x = unat y" by simp
  with e have "bytes_val xs = bytes_val ys" by simp
  with ux show ?case using Cons.IH by (simp add: word_unat_eq_iff)
qed

lemma lexordp_rev_bytes:
  assumes "length xs = length ys"
  shows "ord_class.lexordp (rev xs) (rev ys) \<longleftrightarrow> bytes_val xs < bytes_val ys"
  using assms
proof (induction xs ys rule: list_induct2)
  case Nil then show ?case by simp
next
  case (Cons x xs y ys)
  have lx: "unat x < 256" and ly: "unat y < 256" by (rule unat_byte_lt)+
  have eq: "(xs = ys) = (bytes_val xs = bytes_val ys)"
    using bytes_val_inj[OF Cons.hyps] by auto
  have "ord_class.lexordp (rev (x # xs)) (rev (y # ys))
      \<longleftrightarrow> ord_class.lexordp (rev xs) (rev ys) \<or> (rev xs = rev ys \<and> x < y)"
    using Cons.hyps by (simp add: lexordp_snoc)
  also have "\<dots> \<longleftrightarrow> bytes_val xs < bytes_val ys \<or> (bytes_val xs = bytes_val ys \<and> unat x < unat y)"
    using Cons.IH eq by (simp add: word_less_nat_alt)
  also have "\<dots> \<longleftrightarrow> unat x + 256 * bytes_val xs < unat y + 256 * bytes_val ys"
    using lx ly by linarith
  finally show ?case by simp
qed

lemma sum_digits_mod:
  "bytes_val (map (\<lambda>i. (of_nat (x div 256 ^ (i + j)) :: byte)) [0..<n]) = x div 256 ^ j mod 256 ^ n"
proof (induction n arbitrary: j)
  case 0 then show ?case by simp
next
  case (Suc n)
  have "map (\<lambda>i. (of_nat (x div 256 ^ (i + j)) :: byte)) [0..<Suc n]
      = of_nat (x div 256 ^ j) # map (\<lambda>i. of_nat (x div 256 ^ (i + Suc j))) [0..<n]"
  proof -
    have "[0..<Suc n] = 0 # map Suc [0..<n]"
      by (simp only: map_Suc_upt upt_conv_Cons[OF zero_less_Suc])
    then show ?thesis by (simp add: comp_def del: upt_Suc)
  qed
  then have "bytes_val (map (\<lambda>i. (of_nat (x div 256 ^ (i + j)) :: byte)) [0..<Suc n])
      = unat (of_nat (x div 256 ^ j) :: byte) + 256 * (x div 256 ^ Suc j mod 256 ^ n)"
    using Suc.IH[of "Suc j"] by simp
  also have "unat (of_nat (x div 256 ^ j) :: byte) = x div 256 ^ j mod 256"
    by (simp add: unat_of_nat)
  also have "x div 256 ^ j mod 256 + 256 * (x div 256 ^ Suc j mod 256 ^ n)
      = x div 256 ^ j mod 256 ^ Suc n"
  proof -
    have "x div 256 ^ Suc j = x div 256 ^ j div 256"
      by (simp only: power_Suc2 div_mult2_eq)
    then show ?thesis
      using mod_mult2_eq[of "x div 256 ^ j" 256 "256 ^ n"] by simp
  qed
  finally show ?case .
qed

lemma ucast_drop_byte:
  "(ucast (drop_bit (8 * i) (k::'k::len word)) :: byte) = of_nat (unat k div 256 ^ i)"
proof -
  have "(ucast (drop_bit (8 * i) k) :: byte) = of_nat (unat (drop_bit (8 * i) k))"
    by simp
  also have "unat (drop_bit (8 * i) k) = unat k div 256 ^ i"
  proof -
    have "unat (drop_bit (8 * i) k) = drop_bit (8 * i) (unat k)"
      by (rule unat_drop_bit_eq)
    then show ?thesis by (simp add: drop_bit_eq_div power_mult)
  qed
  finally show ?thesis .
qed

lemma bytes_val_key_to_bytes:
  "bytes_val (key_to_bytes sz (k::'k::len word)) = unat k mod 256 ^ sz"
  using sum_digits_mod[of "unat k" 0 sz] by (simp add: key_to_bytes_def ucast_drop_byte)

lemma bytes_val_key:
  assumes "LENGTH('k::len) = 8 * sz"
  shows "bytes_val (key_to_bytes sz (k::'k word)) = unat k"
proof -
  have "unat k < 2 ^ LENGTH('k)" by (rule unsigned_less)
  then have "unat k < 256 ^ sz" by (simp add: assms power_mult)
  then show ?thesis by (simp add: bytes_val_key_to_bytes)
qed

lemma length_key_to_bytes [simp]: "length (key_to_bytes sz k) = sz"
  by (simp add: key_to_bytes_def)

lemma radix_bytes_less_iff:
  assumes "LENGTH('k::len) = 8 * sz"
  shows "radix_bytes_less sz a b \<longleftrightarrow> a < (b::'k word)"
  unfolding radix_bytes_less_def
  by (simp add: lexordp_rev_bytes bytes_val_key[OF assms] word_less_nat_alt)

lemma fp_scaled_mono:
  assumes "f1 < 2 ^ fb" "f2 < 2 ^ fb" "e1 * 2 ^ fb + f1 < e2 * 2 ^ fb + f2"
  shows "fp_scaled fb e1 f1 < fp_scaled fb e2 f2"
proof -
  have le: "e1 \<le> e2"
  proof (rule ccontr)
    assume "\<not> e1 \<le> e2"
    then have "e2 + 1 \<le> e1" by simp
    then have "(e2 + 1) * 2 ^ fb \<le> e1 * 2 ^ fb" by (rule mult_le_mono1)
    then show False using assms by (simp add: algebra_simps)
  qed
  show ?thesis
  proof (cases "e1 = e2")
    case True
    then have "f1 < f2" using assms(3) by simp
    then show ?thesis using True by (simp add: fp_scaled_def)
  next
    case False
    then have lt: "e1 < e2" using le by simp
    then have e2: "e2 \<noteq> 0" by simp
    have r: "(2::nat) ^ fb * 2 ^ (e2 - 1) \<le> fp_scaled fb e2 f2"
      using e2 by (simp add: fp_scaled_def algebra_simps)
    show ?thesis
    proof (cases "e1 = 0")
      case True
      have "f1 < 2 ^ fb * 1" using assms(1) by simp
      also have "\<dots> \<le> 2 ^ fb * 2 ^ (e2 - 1)" by (rule mult_le_mono2) simp
      finally show ?thesis using r True by (simp add: fp_scaled_def)
    next
      case False
      have "2 ^ (e1 - 1) * (2 ^ fb + f1) < 2 ^ (e1 - 1) * (2 ^ fb + 2 ^ fb)"
        using assms(1) by simp
      also have "\<dots> = 2 ^ fb * 2 ^ e1"
        using False by (cases e1) (simp_all add: algebra_simps)
      also have "\<dots> \<le> 2 ^ fb * 2 ^ (e2 - 1)"
        using lt by (intro mult_le_mono2 power_increasing) simp_all
      finally show ?thesis using r False by (simp add: fp_scaled_def)
    qed
  qed
qed

lemma fp_mag_split: "fp_mag w = fp_exponent fb w * 2 ^ fb + fp_fraction fb w"
  unfolding fp_mag_def fp_exponent_def fp_fraction_def
  by (rule div_mult_mod_eq[symmetric])

lemma fp_scaled_less_iff:
  "fp_scaled fb (fp_exponent fb a) (fp_fraction fb a) < fp_scaled fb (fp_exponent fb b) (fp_fraction fb b)
   \<longleftrightarrow> fp_mag a < fp_mag b"
proof -
  have fa: "fp_fraction fb a < 2 ^ fb" and fbb: "fp_fraction fb b < 2 ^ fb"
    by (simp_all add: fp_fraction_def)
  have 1: "fp_mag a < fp_mag b \<Longrightarrow> ?thesis"
    using fp_scaled_mono[OF fa fbb, of "fp_exponent fb a" "fp_exponent fb b"]
    by (simp add: fp_mag_split[of _ fb])
  have 2: "fp_mag b < fp_mag a \<Longrightarrow> ?thesis"
    using fp_scaled_mono[OF fbb fa, of "fp_exponent fb b" "fp_exponent fb a"]
    by (simp add: fp_mag_split[of _ fb])
  have 3: "fp_mag a = fp_mag b \<Longrightarrow> ?thesis"
    by (simp add: fp_mag_def fp_exponent_def fp_fraction_def)
  show ?thesis using 1 2 3 by linarith
qed

lemma fp_scaled_zero_iff:
  "fp_scaled fb (fp_exponent fb a) (fp_fraction fb a) = 0 \<longleftrightarrow> fp_mag a = 0"
  by (auto simp: fp_scaled_def fp_mag_split[of a fb])

lemma uint_fp_apply_neg:
  assumes "fp_sign (v::'a::len word)"
  shows "uint (fp_apply v) = take_bit (LENGTH('a) - 1) (NOT (uint v))"
proof (rule bit_eqI)
  fix n
  have "n < LENGTH('a) - Suc 0 \<longleftrightarrow> n < LENGTH('a) \<and> n \<noteq> LENGTH('a) - Suc 0" by auto
  then show "bit (uint (fp_apply v)) n = bit (take_bit (LENGTH('a) - 1) (NOT (uint v))) n"
    using assms bit_imp_le_length[of v n]
    by (auto simp: fp_apply_def fp_sign_def Let_def bit_simps)
qed

lemma uint_fp_apply_pos:
  assumes "\<not> fp_sign (v::'a::len word)"
  shows "uint (fp_apply v) = take_bit (LENGTH('a) - 1) (uint v) OR 2 ^ (LENGTH('a) - 1)"
proof (rule bit_eqI)
  fix n
  have "n < LENGTH('a) - Suc 0 \<longleftrightarrow> n < LENGTH('a) \<and> n \<noteq> LENGTH('a) - Suc 0" by auto
  then show "bit (uint (fp_apply v)) n
      = bit (take_bit (LENGTH('a) - 1) (uint v) OR 2 ^ (LENGTH('a) - 1)) n"
    using assms bit_imp_le_length[of v n]
    by (auto simp: fp_apply_def fp_sign_def Let_def bit_simps)
qed

lemma int_fp_mag: "int (fp_mag (v::'a::len word)) = take_bit (LENGTH('a) - 1) (uint v)"
proof -
  have "int (fp_mag v) = uint (take_bit (LENGTH('a) - 1) v)"
    by (simp add: fp_mag_def)
  also have "\<dots> = take_bit (LENGTH('a) - 1) (uint v)"
    by (rule unsigned_take_bit_eq)
  finally show ?thesis .
qed

lemma uint_fp_apply:
  "uint (fp_apply (v::'a::len word)) =
     (if fp_sign v then 2 ^ (LENGTH('a) - 1) - 1 - int (fp_mag v)
      else 2 ^ (LENGTH('a) - 1) + int (fp_mag v))"
proof (cases "fp_sign v")
  case True
  have "uint (fp_apply v) = mask (LENGTH('a) - 1) - take_bit (LENGTH('a) - 1) (uint v)"
    using uint_fp_apply_neg[OF True] by (simp add: take_bit_not_eq_mask_diff)
  moreover have "int (fp_mag v) = take_bit (LENGTH('a) - 1) (uint v)"
    by (rule int_fp_mag)
  ultimately show ?thesis using True by (simp add: mask_eq_exp_minus_1)
next
  case False
  have "take_bit (LENGTH('a) - 1) (uint v) AND 2 ^ (LENGTH('a) - 1) = 0"
    by (intro bit_eqI) (auto simp: bit_simps)
  then have "uint (fp_apply v) = take_bit (LENGTH('a) - 1) (uint v) + 2 ^ (LENGTH('a) - 1)"
    using uint_fp_apply_pos[OF False] by (simp add: disjunctive_add_eq_or)
  moreover have "int (fp_mag v) = take_bit (LENGTH('a) - 1) (uint v)"
    by (rule int_fp_mag)
  ultimately show ?thesis using False by simp
qed

lemma fp_mag_bound: "int (fp_mag (v::'a::len word)) < 2 ^ (LENGTH('a) - 1)"
proof -
  have "fp_mag v < 2 ^ (LENGTH('a) - 1)"
    by (simp add: fp_mag_def unsigned_take_bit_eq)
  then have "int (fp_mag v) < int (2 ^ (LENGTH('a) - 1))" by (simp only: of_nat_less_iff)
  then show ?thesis by simp
qed

lemma fp_mag_zero_bits:
  "fp_mag (v::'a::len word) = 0 \<longleftrightarrow> (\<forall>i < LENGTH('a) - 1. \<not> bit v i)"
proof -
  have "fp_mag v = 0 \<longleftrightarrow> take_bit (LENGTH('a) - 1) v = 0"
    by (simp add: fp_mag_def unsigned_eq_0_iff)
  also have "\<dots> \<longleftrightarrow> (\<forall>i < LENGTH('a) - 1. \<not> bit v i)"
    by (auto simp: bit_eq_iff bit_simps)
  finally show ?thesis .
qed

lemma fp_zero_iff:
  "(fp_sign v \<and> fp_mag v = 0) \<longleftrightarrow> v = (2::'a::len word) ^ (LENGTH('a) - 1)"
  "(\<not> fp_sign v \<and> fp_mag v = 0) \<longleftrightarrow> v = 0"
proof -
  show "(fp_sign v \<and> fp_mag v = 0) \<longleftrightarrow> v = (2::'a::len word) ^ (LENGTH('a) - 1)"
  proof
    assume a: "fp_sign v \<and> fp_mag v = 0"
    show "v = 2 ^ (LENGTH('a) - 1)"
    proof (rule bit_word_eqI)
      fix n assume n: "n < LENGTH('a)"
      show "bit v n = bit ((2::'a word) ^ (LENGTH('a) - 1)) n"
      proof (cases "n = LENGTH('a) - 1")
        case True
        then show ?thesis using a by (simp add: fp_sign_def bit_simps)
      next
        case False
        then have "n < LENGTH('a) - 1" using n by linarith
        then have "\<not> bit v n" using a by (simp add: fp_mag_zero_bits)
        then show ?thesis using False by (simp add: bit_simps)
      qed
    qed
  next
    assume "v = 2 ^ (LENGTH('a) - 1)"
    then show "fp_sign v \<and> fp_mag v = 0"
      by (simp add: fp_sign_def fp_mag_zero_bits bit_simps)
  qed
  show "(\<not> fp_sign v \<and> fp_mag v = 0) \<longleftrightarrow> v = 0"
  proof
    assume a: "\<not> fp_sign v \<and> fp_mag v = 0"
    show "v = 0"
    proof (rule bit_word_eqI)
      fix n assume n: "n < LENGTH('a)"
      show "bit v n = bit (0::'a word) n"
      proof (cases "n = LENGTH('a) - 1")
        case True
        then show ?thesis using a by (simp add: fp_sign_def)
      next
        case False
        then have "n < LENGTH('a) - 1" using n by linarith
        then have "\<not> bit v n" using a by (simp add: fp_mag_zero_bits)
        then show ?thesis by simp
      qed
    qed
  next
    assume "v = 0"
    then show "\<not> fp_sign v \<and> fp_mag v = 0"
      by (simp add: fp_sign_def fp_mag_zero_bits)
  qed
qed

lemma fp_apply_less_iff:
  fixes a b :: "'a::len word"
  assumes "\<not> fp_is_nan fb a" "\<not> fp_is_nan fb b"
  shows "fp_apply a < fp_apply b \<longleftrightarrow>
     fp_less fb a b \<or> (a = 2 ^ (LENGTH('a) - 1) \<and> b = 0)"
proof -
  let ?sa = "fp_scaled fb (fp_exponent fb a) (fp_fraction fb a)"
  let ?sb = "fp_scaled fb (fp_exponent fb b) (fp_fraction fb b)"
  have l1: "?sa < ?sb \<longleftrightarrow> fp_mag a < fp_mag b" by (rule fp_scaled_less_iff)
  have l2: "?sb < ?sa \<longleftrightarrow> fp_mag b < fp_mag a" by (rule fp_scaled_less_iff)
  have z1: "?sa = 0 \<longleftrightarrow> fp_mag a = 0" by (rule fp_scaled_zero_iff)
  have z2: "?sb = 0 \<longleftrightarrow> fp_mag b = 0" by (rule fp_scaled_zero_iff)
  have ba: "int (fp_mag a) < 2 ^ (LENGTH('a) - 1)" and bb: "int (fp_mag b) < 2 ^ (LENGTH('a) - 1)"
    by (rule fp_mag_bound)+
  have lhs: "fp_apply a < fp_apply b \<longleftrightarrow> uint (fp_apply a) < uint (fp_apply b)"
    by (rule word_less_alt)
  consider (pp) "\<not> fp_sign a" "\<not> fp_sign b" | (nn) "fp_sign a" "fp_sign b"
    | (np) "fp_sign a" "\<not> fp_sign b" | (pn) "\<not> fp_sign a" "fp_sign b" by blast
  then show ?thesis
  proof cases
    case pp
    then show ?thesis
      using assms l1 fp_zero_iff(1)[of a]
      by (simp add: lhs uint_fp_apply fp_less_def fp_value_def)
  next
    case nn
    then show ?thesis
      using assms l2 ba bb fp_zero_iff(2)[of b]
      by (simp add: lhs uint_fp_apply fp_less_def fp_value_def)
  next
    case np
    have "(- int ?sa < int ?sb) \<longleftrightarrow> \<not> (fp_mag a = 0 \<and> fp_mag b = 0)"
      using z1 z2 by (cases "?sa = 0"; cases "?sb = 0") auto
    then show ?thesis
      using np assms ba bb fp_zero_iff(1)[of a] fp_zero_iff(2)[of b]
      by (auto simp add: lhs uint_fp_apply fp_less_def fp_value_def)
  next
    case pn
    then show ?thesis
      using assms ba bb fp_zero_iff(1)[of a]
      by (auto simp add: lhs uint_fp_apply fp_less_def fp_value_def)
  qed
qed

lemma signbit_double: "(2::'a::len word) ^ (LENGTH('a) - Suc 0) + 2 ^ (LENGTH('a) - Suc 0) = 0"
proof -
  have "(2::'a word) ^ (LENGTH('a) - Suc 0) + 2 ^ (LENGTH('a) - Suc 0) = 2 ^ Suc (LENGTH('a) - Suc 0)"
    by (simp only: power_Suc mult_2)
  also have "Suc (LENGTH('a) - Suc 0) = LENGTH('a)" by simp
  finally show ?thesis by simp
qed

lemma flip_sign_add: "flip_sign (w::'a::len word) = w + 2 ^ (LENGTH('a) - Suc 0)"
proof -
  have "flip_sign w = flip_bit (LENGTH('a) - Suc 0) w"
    by (simp add: flip_sign_def flip_bit_eq_xor)
  also have "\<dots> = w + 2 ^ (LENGTH('a) - Suc 0)"
    using signbit_double[where 'a='a]
    by (simp add: flip_bit_eq_if set_bit_eq unset_bit_eq algebra_simps eq_neg_iff_add_eq_0)
  finally show ?thesis .
qed

lemma uint_flip_sign: "uint (flip_sign (w::'a::len word)) = sint w + 2 ^ (LENGTH('a) - Suc 0)"
proof -
  have "sint w = take_bit (Suc (LENGTH('a) - Suc 0)) (uint w + 2 ^ (LENGTH('a) - Suc 0)) - 2 ^ (LENGTH('a) - Suc 0)"
    unfolding sint_uint by (rule signed_take_bit_eq_take_bit_shift)
  moreover have "uint (w + 2 ^ (LENGTH('a) - Suc 0)) = take_bit LENGTH('a) (uint w + 2 ^ (LENGTH('a) - Suc 0))"
  proof -
    have "uint ((2::'a word) ^ (LENGTH('a) - Suc 0)) = 2 ^ (LENGTH('a) - Suc 0)"
      by (rule uint_2p) (simp add: word_gt_0)
    then show ?thesis by (simp add: uint_word_ariths take_bit_eq_mod)
  qed
  ultimately show ?thesis by (simp add: flip_sign_add)
qed

lemma signed_less_flip: "(flip_sign a < flip_sign b) = ((a::'a::len word) <s b)"
  by (simp add: word_less_alt word_sless_alt uint_flip_sign)

lemma int_order:
  "radix_bytes_less 1 (ordering_default_apply_int8 a8) (ordering_default_apply_int8 b8)
      \<longleftrightarrow> a8 <s b8"
  "radix_bytes_less 2 (ordering_default_apply_int16 a16) (ordering_default_apply_int16 b16)
      \<longleftrightarrow> a16 <s b16"
  "radix_bytes_less 4 (ordering_default_apply_int32 a32) (ordering_default_apply_int32 b32)
      \<longleftrightarrow> a32 <s b32"
  "radix_bytes_less 8 (ordering_default_apply_int64 a64) (ordering_default_apply_int64 b64)
      \<longleftrightarrow> a64 <s b64"
  by (simp_all add: radix_bytes_less_iff apply_int8_flip apply_int16_flip apply_int32_flip
        apply_int64_flip signed_less_flip)

lemma float_order:
  assumes "\<not> fp_is_nan 23 fa" "\<not> fp_is_nan 23 fb"
  shows "radix_bytes_less 4 (ordering_default_apply_float fa) (ordering_default_apply_float fb)
         \<longleftrightarrow> float_less fa fb \<or> (fa = 0x80000000 \<and> fb = 0)"
proof -
  have "radix_bytes_less 4 (ordering_default_apply_float fa) (ordering_default_apply_float fb)
      \<longleftrightarrow> fp_apply fa < fp_apply fb"
    by (simp add: radix_bytes_less_iff apply_float_fp)
  also have "\<dots> \<longleftrightarrow> fp_less 23 fa fb \<or> (fa = 2 ^ (LENGTH(32) - 1) \<and> fb = 0)"
    using assms by (rule fp_apply_less_iff)
  also have "(2::32 word) ^ (LENGTH(32) - 1) = 0x80000000" by simp
  finally show ?thesis by (simp only: float_less_def)
qed

lemma double_order:
  assumes "\<not> fp_is_nan 52 da" "\<not> fp_is_nan 52 db"
  shows "radix_bytes_less 8 (ordering_default_apply_double da) (ordering_default_apply_double db)
         \<longleftrightarrow> double_less da db \<or> (da = 0x8000000000000000 \<and> db = 0)"
proof -
  have "radix_bytes_less 8 (ordering_default_apply_double da) (ordering_default_apply_double db)
      \<longleftrightarrow> fp_apply da < fp_apply db"
    by (simp add: radix_bytes_less_iff apply_double_fp)
  also have "\<dots> \<longleftrightarrow> fp_less 52 da db \<or> (da = 2 ^ (LENGTH(64) - 1) \<and> db = 0)"
    using assms by (rule fp_apply_less_iff)
  also have "(2::64 word) ^ (LENGTH(64) - 1) = 0x8000000000000000" by simp
  finally show ?thesis by (simp only: double_less_def)
qed

lemma float_zeros_native: "\<not> float_less 0x80000000 0"
  by (simp add: float_less_def fp_less_def fp_value_def fp_sign_def fp_exponent_def
      fp_fraction_def fp_scaled_def fp_is_nan_def)

lemma float_zeros_radix:
  "radix_bytes_less 4 (ordering_default_apply_float 0x80000000) (ordering_default_apply_float 0)"
  by code_simp

text \<open>
  Claim C2, as stated, at the \<open>float\<close> keys \<open>-0.0\<close> and \<open>+0.0\<close>: the radix key of
  \<open>-0.0\<close> is byte-wise below the radix key of \<open>+0.0\<close>, while \<open>-0.0 < +0.0\<close> is false
  under the native comparison.
\<close>

theorem ordering_default_not_native_on_zeros:
  "\<not> (radix_bytes_less 4 (ordering_default_apply_float 0x80000000)
          (ordering_default_apply_float 0)
        \<longleftrightarrow> float_less 0x80000000 0)"
  using float_zeros_native float_zeros_radix by simp

text \<open>
  Claim C2, amended.  For all keys \<open>a\<close> and \<open>b\<close> of a signed integer key type of width
  8, 16, 32 or 64, \<open>apply a\<close> is below \<open>apply b\<close> under the unsigned byte-wise
  comparison, most significant byte first, if and only if \<open>a < b\<close> as signed integers.
  For \<open>float\<close> and \<open>double\<close> keys that are not NaN, \<open>apply a\<close> is below \<open>apply b\<close> if
  and only if \<open>a < b\<close> under the native comparison or \<open>a\<close> is \<open>-0.0\<close> and \<open>b\<close> is
  \<open>+0.0\<close>.
\<close>

theorem ordering_default_order:
  "(radix_bytes_less 1 (ordering_default_apply_int8 a8) (ordering_default_apply_int8 b8)
      \<longleftrightarrow> a8 <s b8)
   \<and> (radix_bytes_less 2 (ordering_default_apply_int16 a16) (ordering_default_apply_int16 b16)
      \<longleftrightarrow> a16 <s b16)
   \<and> (radix_bytes_less 4 (ordering_default_apply_int32 a32) (ordering_default_apply_int32 b32)
      \<longleftrightarrow> a32 <s b32)
   \<and> (radix_bytes_less 8 (ordering_default_apply_int64 a64) (ordering_default_apply_int64 b64)
      \<longleftrightarrow> a64 <s b64)
   \<and> (\<not> fp_is_nan 23 fa \<and> \<not> fp_is_nan 23 fb \<longrightarrow>
        (radix_bytes_less 4 (ordering_default_apply_float fa) (ordering_default_apply_float fb)
         \<longleftrightarrow> float_less fa fb \<or> (fa = 0x80000000 \<and> fb = 0)))
   \<and> (\<not> fp_is_nan 52 da \<and> \<not> fp_is_nan 52 db \<longrightarrow>
        (radix_bytes_less 8 (ordering_default_apply_double da) (ordering_default_apply_double db)
         \<longleftrightarrow> double_less da db \<or> (da = 0x8000000000000000 \<and> db = 0)))"
  using int_order(1)[of a8 b8] int_order(2)[of a16 b16] int_order(3)[of a32 b32]
    int_order(4)[of a64 b64] float_order[of fa fb] double_order[of da db]
  by blast

lemma float_less_examples:
  "float_less 0xBF800000 0x3F800000" "double_less 0xBFF0000000000000 0x3FF0000000000000"
  by (simp_all add: float_less_def double_less_def fp_less_def fp_value_def fp_sign_def
      fp_exponent_def fp_fraction_def fp_scaled_def fp_is_nan_def)

lemma not_nan_examples:
  "\<not> fp_is_nan 23 (0xBF800000 :: 32 word)" "\<not> fp_is_nan 23 (0x3F800000 :: 32 word)"
  "\<not> fp_is_nan 52 (0xBFF0000000000000 :: 64 word)"
  "\<not> fp_is_nan 52 (0x3FF0000000000000 :: 64 word)"
  by (simp_all add: fp_is_nan_def fp_exponent_def fp_fraction_def)

text \<open>The theorem at \<open>-1.0\<close> and \<open>1.0\<close> and at the 8-bit keys \<open>-5\<close> and \<open>5\<close>.\<close>

theorem ordering_default_order_witness:
  "\<not> fp_is_nan 23 (0xBF800000 :: 32 word) \<and> \<not> fp_is_nan 23 (0x3F800000 :: 32 word)
   \<and> \<not> fp_is_nan 52 (0xBFF0000000000000 :: 64 word)
   \<and> \<not> fp_is_nan 52 (0x3FF0000000000000 :: 64 word)
   \<and> float_less 0xBF800000 0x3F800000
   \<and> radix_bytes_less 4 (ordering_default_apply_float 0xBF800000)
          (ordering_default_apply_float 0x3F800000)
   \<and> double_less 0xBFF0000000000000 0x3FF0000000000000
   \<and> radix_bytes_less 8 (ordering_default_apply_double 0xBFF0000000000000)
          (ordering_default_apply_double 0x3FF0000000000000)
   \<and> (radix_bytes_less 1 (ordering_default_apply_int8 (- 5)) (ordering_default_apply_int8 5)
        \<longleftrightarrow> (- 5 :: 8 word) <s 5)"
  using ordering_default_order[of "- 5" 5 0 0 0 0 0 0 "0xBF800000" "0x3F800000"
      "0xBFF0000000000000" "0x3FF0000000000000"] not_nan_examples float_less_examples
  by blast

section \<open>Paths and the forward search\<close>

lemma load_append: "load r (p @ p') = load (load r p) p'"
  by (induction p arbitrary: r) simp_all

lemma load_snoc: "load r (p @ [i]) = next_slot (load r p) i"
  by (simp add: load_append)

lemma is_empty_iff: "is_empty x = (x = Empty_node)"
  by (cases x) simp_all

lemma load_Empty: "load Empty_node p = Empty_node"
  by (induction p) simp_all

lemma load_empty_append: "is_empty (load r p) \<Longrightarrow> is_empty (load r (p @ p'))"
  by (simp add: load_append is_empty_iff load_Empty)

lemma npath_refl [simp]: "npath V d d = []"
  by (simp add: npath_def)

lemma npath_length [simp]: "length (npath V hi lo) = hi - lo"
  by (simp add: npath_def)

lemma npath_split: "lo \<le> mid \<Longrightarrow> mid \<le> hi \<Longrightarrow> npath V hi lo = npath V hi mid @ npath V mid lo"
proof -
  assume a: "lo \<le> mid" "mid \<le> hi"
  then have "[lo..<hi] = [lo..<mid] @ [mid..<hi]"
    by (metis le_Suc_ex upt_add_eq_append)
  then show ?thesis by (simp add: npath_def)
qed

lemma npath_step: "d < hi \<Longrightarrow> npath V hi d = npath V hi (Suc d) @ [V div 16 ^ d mod 16]"
  using npath_split[of d "Suc d" hi V] by (simp add: npath_def)

lemma npath_cong:
  assumes "V div 16 ^ lo = V' div 16 ^ lo"
  shows "npath V hi lo = npath V' hi lo"
proof -
  have "V div 16 ^ j mod 16 = V' div 16 ^ j mod 16" if "lo \<le> j" for j
  proof -
    from that obtain e where j: "j = lo + e" using le_Suc_ex by blast
    show ?thesis unfolding j div_pow_add using assms by simp
  qed
  then show ?thesis by (simp add: npath_def)
qed

lemma absent_subtree:
  assumes "is_empty (load r (npath V (2 * sz) lo))" "k div 16 ^ lo = V div 16 ^ lo" "lo \<le> 2 * sz"
  shows "\<not> present sz r k"
proof -
  have "npath k (2 * sz) 0 = npath V (2 * sz) lo @ npath k lo 0"
    using npath_split[of 0 lo "2 * sz" k] npath_cong[OF assms(2)] assms(3) by simp
  then show ?thesis
    using assms(1) by (simp add: present_def load_empty_append)
qed

text \<open>arithmetic of one odometer step\<close>

lemma mod_pow_add_zero:
  assumes "(x::nat) mod 16 ^ q = 0" "x div 16 ^ q mod 16 ^ r = 0"
  shows "x mod 16 ^ (q + r) = 0"
  using assms mod_mult2_eq[of x "16 ^ q" "16 ^ r"] by (simp add: power_add)

lemma incr_aligned:
  assumes "T' = T + 16 ^ q" "16 ^ q dvd T" "T' div 16 ^ q mod 16 ^ r = 0"
  shows "16 ^ (q + r) dvd (T'::nat)"
proof -
  have "T' mod 16 ^ q = 0" using assms(1,2) by (simp add: mod_eq_0_iff_dvd)
  then have "T' mod 16 ^ (q + r) = 0" using assms(3) by (rule mod_pow_add_zero)
  then show ?thesis by (simp add: mod_eq_0_iff_dvd)
qed

lemma incr_no_carry:
  assumes "T' = T + 16 ^ q" "16 ^ q dvd T" "T' div 16 ^ q mod 16 ^ r = 0"
    "T' div 16 ^ (q + r) mod 16 \<noteq> 0"
  shows "T div 16 ^ (q + r + 1) = (T'::nat) div 16 ^ (q + r + 1)"
proof -
  define P :: nat where "P = 16 ^ (q + r)"
  have Ppos: "0 < P" by (simp add: P_def)
  have dvd: "P dvd T'" unfolding P_def using assms(1-3) by (rule incr_aligned)
  then obtain A where A: "T' = P * A" by (auto simp: dvd_def)
  have Adiv: "T' div P = A" using A Ppos by simp
  have Am: "A mod 16 \<noteq> 0" using assms(4) Adiv by (simp add: P_def)
  then have Apos: "0 < A" by (cases A) auto
  have le: "(16::nat) ^ q \<le> P" unfolding P_def by (simp add: power_increasing)
  have Teq: "T = P * (A - 1) + (P - 16 ^ q)"
  proof -
    have "P * A = P * (A - 1) + P" using Apos by (cases A) simp_all
    then show ?thesis using assms(1) A le by simp
  qed
  have "T div P = A - 1"
    unfolding Teq using Ppos by (simp add: div_mult_self4 )
  then have "T div (P * 16) = (A - 1) div 16" by (simp add: div_mult2_eq)
  also have "\<dots> = A div 16" using Am Apos
    by (metis Suc_pred' div_Suc)
  also have "\<dots> = T' div (P * 16)" using Adiv by (simp add: div_mult2_eq)
  finally show ?thesis by (simp add: P_def power_add mult.commute)
qed

lemma child_slot:
  assumes "it_ok sz it" "depth it \<le> d" "d < 2 * sz"
  shows "next_slot (load r (stack it ! d)) (tetradeValue (key_bytes it) d)
         = load r (npath (bytes_val (key_bytes it)) (2 * sz) d)"
proof -
  have "d div 2 < length (key_bytes it)" using assms by (simp add: it_ok_def)
  then have "tetradeValue (key_bytes it) d = bytes_val (key_bytes it) div 16 ^ d mod 16"
    by (rule tetradeValue_val)
  moreover have "stack it ! d = npath (bytes_val (key_bytes it)) (2 * sz) (Suc d)"
    using assms by (simp add: it_ok_def)
  ultimately show ?thesis
    using npath_step[OF assms(3), of "bytes_val (key_bytes it)"] by (simp add: load_snoc)
qed

lemma leaf_present:
  assumes "it_ok sz it" "depth it = 0" "0 < sz"
  shows "(\<not> is_empty (next_slot (load r (stack it ! 0)) (tetradeValue (key_bytes it) 0)))
         = present sz r (bytes_val (key_bytes it))"
  using child_slot[OF assms(1), of 0 r] assms(2,3) by (simp add: present_def)

lemma it_ok_descend:
  assumes ok: "it_ok sz it" and d: "depth it < 2 * sz" "depth it \<noteq> 0"
  shows "it_ok sz (it\<lparr>stack := (stack it)[depth it - 1 :=
            stack it ! depth it @ [tetradeValue (key_bytes it) (depth it)]],
            depth := depth it - 1\<rparr>)"
proof -
  let ?T = "bytes_val (key_bytes it)"
  have "depth it div 2 < length (key_bytes it)" using ok d by (simp add: it_ok_def)
  then have tv: "tetradeValue (key_bytes it) (depth it) = ?T div 16 ^ depth it mod 16"
    by (rule tetradeValue_val)
  have st: "stack it ! depth it = npath ?T (2 * sz) (Suc (depth it))"
    using ok d by (simp add: it_ok_def)
  have new: "stack it ! depth it @ [tetradeValue (key_bytes it) (depth it)]
        = npath ?T (2 * sz) (depth it)"
    using npath_step[OF d(1), of ?T] tv st by simp
  have len: "length (stack it) = 2 * sz" using ok by (simp add: it_ok_def)
  show ?thesis
    unfolding it_ok_def
  proof (intro conjI allI impI)
    fix e
    assume e: "depth (it\<lparr>stack := (stack it)[depth it - 1 :=
            stack it ! depth it @ [tetradeValue (key_bytes it) (depth it)]],
            depth := depth it - 1\<rparr>) \<le> e \<and> e < 2 * sz"
    show "stack (it\<lparr>stack := (stack it)[depth it - 1 :=
            stack it ! depth it @ [tetradeValue (key_bytes it) (depth it)]],
            depth := depth it - 1\<rparr>) ! e =
         npath (bytes_val (key_bytes (it\<lparr>stack := (stack it)[depth it - 1 :=
            stack it ! depth it @ [tetradeValue (key_bytes it) (depth it)]],
            depth := depth it - 1\<rparr>))) (2 * sz) (Suc e)"
    proof (cases "e = depth it - 1")
      case True
      then show ?thesis using new len d e by simp
    next
      case False
      moreover from e have "depth it - 1 \<le> e" by simp
      ultimately have "depth it \<le> e" using d by linarith
      then show ?thesis using ok e False by (simp add: it_ok_def)
    qed
  qed (use ok in \<open>simp_all add: it_ok_def\<close>)
qed

lemma absent_range:
  assumes emp: "is_empty (load r (npath T (2 * sz) d))" and al: "16 ^ d dvd T"
    and d: "d \<le> 2 * sz" and k: "present sz r k" "T \<le> k"
  shows "T + 16 ^ d \<le> k"
proof (rule ccontr)
  assume "\<not> T + 16 ^ d \<le> k"
  then have lt: "k < T + 16 ^ d" by simp
  from al obtain A where A: "T = 16 ^ d * A" by (auto simp: dvd_def)
  have "k div 16 ^ d = A"
  proof -
    have "k = 16 ^ d * A + (k - T)" using k(2) A by simp
    moreover have "k - T < 16 ^ d" using lt k(2) by simp
    ultimately show ?thesis
      by (metis div_mult_self4 div_less add.right_neutral add.commute zero_less_numeral zero_less_power less_numeral_extra(3))
  qed
  moreover have "T div 16 ^ d = A" using A by simp
  ultimately have "k div 16 ^ d = T div 16 ^ d" by simp
  from absent_subtree[OF emp this d] k(1) show False by simp
qed

lemma pow16_256: "(16::nat) ^ (2 * sz) = 256 ^ sz"
  by (simp add: power_mult)

lemma digit_nonzero_bound:
  assumes "(T::nat) div 16 ^ e mod 16 \<noteq> 0" "T < 16 ^ D"
  shows "e < D"
proof (rule ccontr)
  assume "\<not> e < D"
  then have "(16::nat) ^ D \<le> 16 ^ e" by (simp add: power_increasing)
  with assms(2) have "T < 16 ^ e" by (rule less_le_trans)
  then show False using assms(1) by simp
qed

lemma incr_step:
  assumes ok: "it_ok sz it" and d: "depth it < 2 * sz"
    and al: "16 ^ depth it dvd bytes_val (key_bytes it)"
    and lt: "bytes_val (key_bytes it) + 16 ^ depth it < 16 ^ (2 * sz)"
  obtains bs' r where "incrQuartet sz (key_bytes it) (depth it) = (bs', r)"
    "it_ok sz (it\<lparr>key_bytes := bs', depth := depth it + r\<rparr>)"
    "bytes_val bs' = bytes_val (key_bytes it) + 16 ^ depth it"
    "depth it + r < 2 * sz" "16 ^ (depth it + r) dvd bytes_val bs'"
proof -
  let ?T = "bytes_val (key_bytes it)"
  let ?q = "depth it"
  have len: "length (key_bytes it) = sz + 1" using ok by (simp add: it_ok_def)
  have "?T + 16 ^ ?q < 256 ^ sz" using lt pow16_256[of sz] by simp
  also have "(256::nat) ^ sz \<le> 256 ^ (sz + 1)" by simp
  finally have b: "?T + 16 ^ ?q < 256 ^ (sz + 1)" .
  have q: "?q \<le> 2 * sz" using d by simp
  from incrQuartet_spec[OF len q b]
  obtain bs' r where s: "incrQuartet sz (key_bytes it) ?q = (bs', r)"
    and len': "length bs' = sz + 1"
    and val: "bytes_val bs' = ?T + 16 ^ ?q"
    and r1: "bytes_val bs' div 16 ^ ?q mod 16 ^ r = 0"
    and r2: "bytes_val bs' div 16 ^ (?q + r) mod 16 \<noteq> 0"
    by (elim exE conjE)
  have dr: "?q + r < 2 * sz"
  proof (rule digit_nonzero_bound[OF r2])
    show "bytes_val bs' < 16 ^ (2 * sz)" using lt val by simp
  qed
  have al': "16 ^ (?q + r) dvd bytes_val bs'"
    using val al r1 by (rule incr_aligned)
  have nc: "?T div 16 ^ (?q + r + 1) = bytes_val bs' div 16 ^ (?q + r + 1)"
    using val al r1 r2 by (rule incr_no_carry)
  have st: "stack it ! e = npath (bytes_val bs') (2 * sz) (Suc e)"
    if "?q + r \<le> e" "e < 2 * sz" for e
  proof -
    define x where "x = e - (?q + r)"
    have e: "e = ?q + r + x" using that(1) by (simp add: x_def)
    have se: "Suc e = (?q + r + 1) + x" by (simp add: e)
    have "?T div 16 ^ (Suc e) = ?T div 16 ^ (?q + r + 1) div 16 ^ x"
      unfolding se by (rule div_pow_add)
    also have "\<dots> = bytes_val bs' div 16 ^ (?q + r + 1) div 16 ^ x"
      by (simp only: nc)
    also have "\<dots> = bytes_val bs' div 16 ^ (Suc e)"
      unfolding se by (rule div_pow_add[symmetric])
    finally have "?T div 16 ^ (Suc e) = bytes_val bs' div 16 ^ (Suc e)" .
    then have "npath ?T (2 * sz) (Suc e) = npath (bytes_val bs') (2 * sz) (Suc e)"
      by (rule npath_cong)
    moreover have "stack it ! e = npath ?T (2 * sz) (Suc e)"
      using ok that d by (simp add: it_ok_def)
    ultimately show ?thesis by simp
  qed
  have lens: "length (stack it) = 2 * sz" using ok by (simp add: it_ok_def)
  have ok': "it_ok sz (it\<lparr>key_bytes := bs', depth := ?q + r\<rparr>)"
    unfolding it_ok_def
  proof (intro conjI allI impI)
    show "bytes_val (key_bytes (it\<lparr>key_bytes := bs', depth := ?q + r\<rparr>)) < 16 ^ (2 * sz)"
      using lt val by simp
    fix e
    assume "depth (it\<lparr>key_bytes := bs', depth := ?q + r\<rparr>) \<le> e \<and> e < 2 * sz"
    then have "?q + r \<le> e" "e < 2 * sz" by simp_all
    from st[OF this]
    show "stack (it\<lparr>key_bytes := bs', depth := ?q + r\<rparr>) ! e =
        npath (bytes_val (key_bytes (it\<lparr>key_bytes := bs', depth := ?q + r\<rparr>))) (2 * sz) (Suc e)"
      by simp
  qed (simp_all add: len' lens)
  show ?thesis using that[OF s ok' val dr al'] .
qed

lemma pow_div_pow_mod:
  assumes "e < D"
  shows "(16::nat) ^ D div 16 ^ e mod 16 = 0"
proof -
  have "(16::nat) ^ (D - e) = 16 ^ D div 16 ^ e"
    using assms by (intro power_diff) simp_all
  moreover have "(16::nat) ^ (D - e) = 16 * 16 ^ (D - e - 1)"
    using assms by (metis power_Suc Suc_diff_1 zero_less_diff diff_Suc_eq_diff_pred)
  ultimately have "(16::nat) ^ D div 16 ^ e = 16 * 16 ^ (D - e - 1)" by simp
  then show ?thesis by (simp only: mod_mult_self1_is_0)
qed

lemma incr_step_overflow:
  assumes ok: "it_ok sz it" and d: "depth it < 2 * sz"
    and eq: "bytes_val (key_bytes it) + 16 ^ depth it = 16 ^ (2 * sz)"
  obtains bs' r where "incrQuartet sz (key_bytes it) (depth it) = (bs', r)"
    "length bs' = sz + 1" "bs' ! sz = 1" "depth it + r = 2 * sz"
proof -
  let ?T = "bytes_val (key_bytes it)"
  let ?q = "depth it"
  have len: "length (key_bytes it) = sz + 1" using ok by (simp add: it_ok_def)
  have "?T + 16 ^ ?q = 256 ^ sz" using eq pow16_256[of sz] by simp
  also have "(256::nat) ^ sz < 256 ^ (sz + 1)" by simp
  finally have b: "?T + 16 ^ ?q < 256 ^ (sz + 1)" .
  have q: "?q \<le> 2 * sz" using d by simp
  from incrQuartet_spec[OF len q b]
  obtain bs' r where s: "incrQuartet sz (key_bytes it) ?q = (bs', r)"
    and len': "length bs' = sz + 1"
    and val: "bytes_val bs' = ?T + 16 ^ ?q"
    and r1: "bytes_val bs' div 16 ^ ?q mod 16 ^ r = 0"
    and r2: "bytes_val bs' div 16 ^ (?q + r) mod 16 \<noteq> 0"
    by (elim exE conjE)
  have v: "bytes_val bs' = 16 ^ (2 * sz)" using val eq by simp
  have "\<not> ?q + r < 2 * sz"
  proof
    assume "?q + r < 2 * sz"
    then have "(16::nat) ^ (2 * sz) div 16 ^ (?q + r) mod 16 = 0" by (rule pow_div_pow_mod)
    then show False using r2 v by simp
  qed
  moreover have "\<not> 2 * sz < ?q + r"
  proof
    assume "2 * sz < ?q + r"
    then have "(16::nat) ^ (2 * sz) < 16 ^ (?q + r)" by (simp add: power_strict_increasing)
    then show False using r2 v by simp
  qed
  ultimately have dr: "?q + r = 2 * sz" by simp
  have "unat (bs' ! sz) = bytes_val bs' div 256 ^ sz mod 256"
    using bytes_val_nth[of sz bs'] len' by simp
  also have "\<dots> = 1" unfolding v pow16_256 by simp
  finally have "bs' ! sz = 1" by (simp add: word_unat_eq_iff)
  then show ?thesis using that[OF s len' _ dr] by simp
qed

lemma increment_descend:
  assumes "depth it < 2 * sz" "depth it \<noteq> 0"
    "\<not> is_empty (next_slot (load r (stack it ! depth it))
                    (tetradeValue (key_bytes it) (depth it)))"
    "it1 = it\<lparr>stack := (stack it)[depth it - 1 :=
                  stack it ! depth it @ [tetradeValue (key_bytes it) (depth it)]],
               depth := depth it - 1\<rparr>"
  shows "increment sz restore r it = found_step sz restore r it1 (increment sz restore r it1)"
  using assms
  by (subst increment.simps) (simp add: MAX_DEPTH_def Let_def found_step_def)

lemma increment_carry:
  assumes "depth it < 2 * sz"
    "depth it = 0 \<or> is_empty (next_slot (load r (stack it ! depth it))
                    (tetradeValue (key_bytes it) (depth it)))"
    "incrQuartet sz (key_bytes it) (depth it) = (bs', n)"
    "it1 = it\<lparr>key_bytes := bs', depth := depth it + n\<rparr>"
  shows "increment sz restore r it = found_step sz restore r it1 (increment sz restore r it1)"
  using assms
  by (subst increment.simps) (auto simp add: MAX_DEPTH_def Let_def found_step_def)

lemma increment_end:
  assumes "\<not> depth it < 2 * sz" "key_bytes it ! sz \<noteq> 0xFF"
  shows "increment sz restore r it = Some (it\<lparr>key_bytes := (memset (key_bytes it) 0 sz)[sz := 1]\<rparr>)"
  using assms
  by (subst increment.simps) (simp add: MAX_DEPTH_def)

lemma increment_wrap:
  assumes "\<not> depth it < 2 * sz" "key_bytes it ! sz = 0xFF"
  shows "increment sz restore r it = increment sz restore r
          (it\<lparr>key_bytes := memset ((key_bytes it)[sz := 0x00]) 0x00 sz,
              depth := MAX_DEPTH sz - 1\<rparr>)"
  using assms
  by (subst increment.simps) (simp add: MAX_DEPTH_def)

lemma found_step_hit:
  assumes "it_ok sz it1" "depth it1 = 0" "present sz r (bytes_val (key_bytes it1))" "0 < sz"
  shows "\<exists>it'. found_step sz restore r it1 rest = Some it'
           \<and> at_key sz restore r it' (bytes_val (key_bytes it1))"
proof -
  have sl: "next_slot (load r (stack it1 ! 0)) (tetradeValue (key_bytes it1) 0)
        = load r (npath (bytes_val (key_bytes it1)) (2 * sz) 0)"
    using child_slot[OF assms(1), of 0 r] assms(2,4) by simp
  have ne: "\<not> is_empty (load r (npath (bytes_val (key_bytes it1)) (2 * sz) 0))"
    using assms(3) by (simp add: present_def)
  show ?thesis
    using assms(1,2,3) sl ne
    by (simp add: found_step_def at_key_def it_ok_def)
qed

lemma found_step_miss:
  assumes "it_ok sz it1" "depth it1 = 0 \<longrightarrow> \<not> present sz r (bytes_val (key_bytes it1))" "0 < sz"
  shows "found_step sz restore r it1 rest = rest"
proof (cases "depth it1 = 0")
  case True
  then show ?thesis
    using leaf_present[OF assms(1) True assms(3), of r] assms(2)
    by (simp add: found_step_def)
next
  case False
  then show ?thesis by (simp add: found_step_def)
qed

lemma increment_found:
  fixes it :: "('k::len word, 'v) iterator_base"
  assumes "it_ok sz it" "depth it < 2 * sz"
    "16 ^ depth it dvd bytes_val (key_bytes it)"
    "present sz r k" "k < 16 ^ (2 * sz)"
    "bytes_val (key_bytes it) + of_bool (depth it = 0) \<le> k"
    "\<forall>j. bytes_val (key_bytes it) + of_bool (depth it = 0) \<le> j \<and> j < k \<longrightarrow> \<not> present sz r j"
  shows "\<exists>it'. increment sz restore r it = Some it' \<and> at_key sz restore r it' k"
  using assms
proof (induction "(k - bytes_val (key_bytes it)) * (2 * sz + 1) + depth it"
    arbitrary: it rule: less_induct)
  case less
  let ?T = "bytes_val (key_bytes it)"
  let ?d = "depth it"
  note ok = less.prems(1) and d = less.prems(2) and al = less.prems(3)
    and pk = less.prems(4) and kb = less.prems(5) and lb = less.prems(6) and mn = less.prems(7)
  have sz: "0 < sz" using d by simp
  have Tk: "?T \<le> k" using lb by simp
  have child: "next_slot (load r (stack it ! ?d)) (tetradeValue (key_bytes it) ?d)
        = load r (npath ?T (2 * sz) ?d)"
    using child_slot[OF ok _ d, of r] by simp
  show ?case
  proof (cases "?d \<noteq> 0 \<and> \<not> is_empty (load r (npath ?T (2 * sz) ?d))")
    case True
    define it1 where "it1 = it\<lparr>stack := (stack it)[?d - 1 :=
                  stack it ! ?d @ [tetradeValue (key_bytes it) ?d]], depth := ?d - 1\<rparr>"
    have step: "increment sz restore r it
        = found_step sz restore r it1 (increment sz restore r it1)"
      using True child by (intro increment_descend[OF d _ _ it1_def]) simp_all
    have ok1: "it_ok sz it1" unfolding it1_def using ok d True by (intro it_ok_descend) simp_all
    have T1: "bytes_val (key_bytes it1) = ?T" by (simp add: it1_def)
    have d1: "depth it1 = ?d - 1" by (simp add: it1_def)
    show ?thesis
    proof (cases "depth it1 = 0 \<and> present sz r ?T")
      case hit: True
      have "\<not> ?T < k"
      proof
        assume "?T < k"
        moreover have "?T + of_bool (?d = 0) \<le> ?T" using True by simp
        ultimately have "\<not> present sz r ?T" using mn by blast
        then show False using hit by simp
      qed
      then have "k = ?T" using Tk by simp
      then show ?thesis
        using found_step_hit[OF ok1 _ _ sz, of r restore "increment sz restore r it1"] hit
        by (simp add: step T1)
    next
      case miss: False
      have m': "depth it1 = 0 \<longrightarrow> \<not> present sz r (bytes_val (key_bytes it1))"
        using miss by (auto simp: T1)
      have step': "increment sz restore r it = increment sz restore r it1"
        using found_step_miss[OF ok1 m' sz, of restore] by (simp add: step)
      have "\<exists>it'. increment sz restore r it1 = Some it' \<and> at_key sz restore r it' k"
      proof (rule less.hyps)
        show "(k - bytes_val (key_bytes it1)) * (2 * sz + 1) + depth it1
            < (k - ?T) * (2 * sz + 1) + ?d"
          using True by (simp add: T1 d1)
        show "it_ok sz it1" by (rule ok1)
        show "depth it1 < 2 * sz" using d by (simp add: d1)
        have "(16::nat) ^ (?d - 1) dvd 16 ^ ?d" by (rule le_imp_power_dvd) simp
        then show "16 ^ depth it1 dvd bytes_val (key_bytes it1)"
          using al by (simp only: T1 d1) (rule dvd_trans)
        show "present sz r k" by (rule pk)
        show "k < 16 ^ (2 * sz)" by (rule kb)
        have ne: "depth it1 = 0 \<Longrightarrow> ?T \<noteq> k" using miss pk by auto
        then show lb1: "bytes_val (key_bytes it1) + of_bool (depth it1 = 0) \<le> k"
          using Tk by (cases "depth it1 = 0") (simp_all add: T1)
        show "\<forall>j. bytes_val (key_bytes it1) + of_bool (depth it1 = 0) \<le> j \<and> j < k
              \<longrightarrow> \<not> present sz r j"
        proof (intro allI impI)
          fix j assume j: "bytes_val (key_bytes it1) + of_bool (depth it1 = 0) \<le> j \<and> j < k"
          then have "?T + of_bool (?d = 0) \<le> j" using True by (simp add: T1)
          then show "\<not> present sz r j" using mn j by blast
        qed
      qed
      then show ?thesis by (simp add: step')
    qed
  next
    case False
    then have cond: "?d = 0 \<or> is_empty (next_slot (load r (stack it ! ?d))
                    (tetradeValue (key_bytes it) ?d))"
      using child by auto
    have T'k: "?T + 16 ^ ?d \<le> k"
    proof (cases "?d = 0")
      case True
      then show ?thesis using lb by simp
    next
      case nz: False
      then have "is_empty (load r (npath ?T (2 * sz) ?d))" using False by simp
      then show ?thesis using al pk Tk d by (intro absent_range[where r=r and sz=sz]) simp_all
    qed
    then have lt: "?T + 16 ^ ?d < 16 ^ (2 * sz)" using kb by simp
    from incr_step[OF ok d al lt]
    obtain bs' n where s: "incrQuartet sz (key_bytes it) ?d = (bs', n)"
      and ok1': "it_ok sz (it\<lparr>key_bytes := bs', depth := ?d + n\<rparr>)"
      and val: "bytes_val bs' = ?T + 16 ^ ?d"
      and dn: "?d + n < 2 * sz" and al1: "16 ^ (?d + n) dvd bytes_val bs'" .
    define it1 where "it1 = it\<lparr>key_bytes := bs', depth := ?d + n\<rparr>"
    have step: "increment sz restore r it
        = found_step sz restore r it1 (increment sz restore r it1)"
      using increment_carry[OF d cond s it1_def] .
    have ok1: "it_ok sz it1" using ok1' by (simp add: it1_def)
    have T1: "bytes_val (key_bytes it1) = ?T + 16 ^ ?d" by (simp add: it1_def val)
    have d1: "depth it1 = ?d + n" by (simp add: it1_def)
    have lbT1: "?T + of_bool (?d = 0) \<le> ?T + 16 ^ ?d"
      by (cases "?d = 0") simp_all
    show ?thesis
    proof (cases "depth it1 = 0 \<and> present sz r (?T + 16 ^ ?d)")
      case hit: True
      have "\<not> ?T + 16 ^ ?d < k"
      proof
        assume "?T + 16 ^ ?d < k"
        then have "\<not> present sz r (?T + 16 ^ ?d)" using mn lbT1 by blast
        then show False using hit by simp
      qed
      then have "k = ?T + 16 ^ ?d" using T'k by simp
      then show ?thesis
        using found_step_hit[OF ok1 _ _ sz, of r restore "increment sz restore r it1"] hit
        by (simp add: step T1)
    next
      case miss: False
      have m': "depth it1 = 0 \<longrightarrow> \<not> present sz r (bytes_val (key_bytes it1))"
        using miss by (auto simp: T1)
      have step': "increment sz restore r it = increment sz restore r it1"
        using found_step_miss[OF ok1 m' sz, of restore] by (simp add: step)
      have "\<exists>it'. increment sz restore r it1 = Some it' \<and> at_key sz restore r it' k"
      proof (rule less.hyps)
        have "0 < (16::nat) ^ ?d" by simp
        then have "k - (?T + 16 ^ ?d) < k - ?T" using T'k by linarith
        then have "(k - (?T + 16 ^ ?d)) + 1 \<le> k - ?T" by simp
        then have "((k - (?T + 16 ^ ?d)) + 1) * (2 * sz + 1) \<le> (k - ?T) * (2 * sz + 1)"
          by (rule mult_le_mono1)
        moreover have "(k - (?T + 16 ^ ?d)) * (2 * sz + 1) + (?d + n)
              < ((k - (?T + 16 ^ ?d)) + 1) * (2 * sz + 1)"
          using dn by (simp add: algebra_simps)
        ultimately show "(k - bytes_val (key_bytes it1)) * (2 * sz + 1) + depth it1
            < (k - ?T) * (2 * sz + 1) + ?d"
          unfolding T1 d1 by linarith
        show "it_ok sz it1" by (rule ok1)
        show "depth it1 < 2 * sz" using dn by (simp add: d1)
        show "16 ^ depth it1 dvd bytes_val (key_bytes it1)"
          using al1 by (simp add: d1 it1_def)
        show "present sz r k" by (rule pk)
        show "k < 16 ^ (2 * sz)" by (rule kb)
        have ne: "depth it1 = 0 \<Longrightarrow> ?T + 16 ^ ?d \<noteq> k" using miss pk by auto
        then show "bytes_val (key_bytes it1) + of_bool (depth it1 = 0) \<le> k"
          using T'k by (cases "depth it1 = 0") (simp_all add: T1)
        show "\<forall>j. bytes_val (key_bytes it1) + of_bool (depth it1 = 0) \<le> j \<and> j < k
              \<longrightarrow> \<not> present sz r j"
        proof (intro allI impI)
          fix j assume j: "bytes_val (key_bytes it1) + of_bool (depth it1 = 0) \<le> j \<and> j < k"
          then have "?T + 16 ^ ?d \<le> j" by (simp add: T1)
          then have "?T + of_bool (?d = 0) \<le> j" using lbT1 by simp
          then show "\<not> present sz r j" using mn j by blast
        qed
      qed
      then show ?thesis by (simp add: step')
    qed
  qed
qed

lemma aligned_add_le:
  assumes "16 ^ d dvd (T::nat)" "T < 16 ^ D" "d \<le> D"
  shows "T + 16 ^ d \<le> 16 ^ D"
proof -
  from assms(1) obtain A where A: "T = 16 ^ d * A" by (auto simp: dvd_def)
  have D: "(16::nat) ^ D = 16 ^ d * 16 ^ (D - d)"
    using assms(3) by (simp flip: power_add)
  have "A < 16 ^ (D - d)" using assms(2) unfolding A D by simp
  then have "A + 1 \<le> 16 ^ (D - d)" by simp
  then have "16 ^ d * (A + 1) \<le> (16::nat) ^ d * 16 ^ (D - d)" by (rule mult_le_mono2)
  then show ?thesis unfolding A D by simp
qed

lemma memset_end:
  assumes "length bs = sz + 1"
  shows "(memset bs c sz)[sz := x] = replicate sz c @ [x]"
proof -
  have "drop sz bs = [bs ! sz]"
    using assms by (metis Suc_eq_plus1 append_Nil2 Cons_nth_drop_Suc drop_all lessI order_refl)
  then show ?thesis by (simp add: memset_def list_update_append)
qed

lemma increment_exhausted:
  fixes it :: "('k::len word, 'v) iterator_base"
  assumes "it_ok sz it" "depth it < 2 * sz"
    "16 ^ depth it dvd bytes_val (key_bytes it)"
    "\<forall>j. bytes_val (key_bytes it) + of_bool (depth it = 0) \<le> j \<and> j < 16 ^ (2 * sz)
       \<longrightarrow> \<not> present sz r j"
  shows "\<exists>it'. increment sz restore r it = Some it' \<and> key_bytes it' = replicate sz 0 @ [1]
            \<and> stack it' ! (2 * sz - 1) = stack it ! (2 * sz - 1) \<and> length (stack it') = 2 * sz"
  using assms
proof (induction "(16 ^ (2 * sz) - bytes_val (key_bytes it)) * (2 * sz + 1) + depth it"
    arbitrary: it rule: less_induct)
  case less
  let ?T = "bytes_val (key_bytes it)"
  let ?d = "depth it"
  let ?M = "(16::nat) ^ (2 * sz)"
  note ok = less.prems(1) and d = less.prems(2) and al = less.prems(3) and mn = less.prems(4)
  have sz: "0 < sz" using d by simp
  have TM: "?T < ?M" using ok by (simp add: it_ok_def)
  have lens: "length (stack it) = 2 * sz" using ok by (simp add: it_ok_def)
  have child: "next_slot (load r (stack it ! ?d)) (tetradeValue (key_bytes it) ?d)
        = load r (npath ?T (2 * sz) ?d)"
    using child_slot[OF ok _ d, of r] by simp
  show ?case
  proof (cases "?d \<noteq> 0 \<and> \<not> is_empty (load r (npath ?T (2 * sz) ?d))")
    case True
    define it1 where "it1 = it\<lparr>stack := (stack it)[?d - 1 :=
                  stack it ! ?d @ [tetradeValue (key_bytes it) ?d]], depth := ?d - 1\<rparr>"
    have step: "increment sz restore r it
        = found_step sz restore r it1 (increment sz restore r it1)"
      using True child by (intro increment_descend[OF d _ _ it1_def]) simp_all
    have ok1: "it_ok sz it1" unfolding it1_def using ok d True by (intro it_ok_descend) simp_all
    have T1: "bytes_val (key_bytes it1) = ?T" by (simp add: it1_def)
    have d1: "depth it1 = ?d - 1" by (simp add: it1_def)
    have "?d - 1 \<noteq> 2 * sz - 1" using d True by linarith
    then have top: "stack it1 ! (2 * sz - 1) = stack it ! (2 * sz - 1)"
      by (simp add: it1_def)
    have "\<not> present sz r ?T" using mn TM True by simp
    then have m': "depth it1 = 0 \<longrightarrow> \<not> present sz r (bytes_val (key_bytes it1))"
      by (simp add: T1)
    have step': "increment sz restore r it = increment sz restore r it1"
      using found_step_miss[OF ok1 m' sz, of restore] by (simp add: step)
    have "\<exists>it'. increment sz restore r it1 = Some it' \<and> key_bytes it' = replicate sz 0 @ [1]
            \<and> stack it' ! (2 * sz - 1) = stack it1 ! (2 * sz - 1) \<and> length (stack it') = 2 * sz"
    proof (rule less.hyps)
      show "(?M - bytes_val (key_bytes it1)) * (2 * sz + 1) + depth it1
          < (?M - ?T) * (2 * sz + 1) + ?d"
        using True by (simp add: T1 d1)
      show "it_ok sz it1" by (rule ok1)
      show "depth it1 < 2 * sz" using d by (simp add: d1)
      have "(16::nat) ^ (?d - 1) dvd 16 ^ ?d" by (rule le_imp_power_dvd) simp
      then show "16 ^ depth it1 dvd bytes_val (key_bytes it1)"
        using al by (simp only: T1 d1) (rule dvd_trans)
      show "\<forall>j. bytes_val (key_bytes it1) + of_bool (depth it1 = 0) \<le> j \<and> j < ?M
              \<longrightarrow> \<not> present sz r j"
      proof (intro allI impI)
        fix j assume j: "bytes_val (key_bytes it1) + of_bool (depth it1 = 0) \<le> j \<and> j < ?M"
        then have "?T + of_bool (?d = 0) \<le> j" using True by (simp add: T1)
        then show "\<not> present sz r j" using mn j by blast
      qed
    qed
    then show ?thesis using top by (auto simp: step')
  next
    case False
    then have cond: "?d = 0 \<or> is_empty (next_slot (load r (stack it ! ?d))
                    (tetradeValue (key_bytes it) ?d))"
      using child by auto
    have le: "?T + 16 ^ ?d \<le> ?M" using al TM d by (intro aligned_add_le) simp_all
    have lbT1: "?T + of_bool (?d = 0) \<le> ?T + 16 ^ ?d"
      by (cases "?d = 0") simp_all
    show ?thesis
    proof (cases "?T + 16 ^ ?d < ?M")
      case lt: True
      from incr_step[OF ok d al lt]
      obtain bs' n where s: "incrQuartet sz (key_bytes it) ?d = (bs', n)"
        and ok1': "it_ok sz (it\<lparr>key_bytes := bs', depth := ?d + n\<rparr>)"
        and val: "bytes_val bs' = ?T + 16 ^ ?d"
        and dn: "?d + n < 2 * sz" and al1: "16 ^ (?d + n) dvd bytes_val bs'" .
      define it1 where "it1 = it\<lparr>key_bytes := bs', depth := ?d + n\<rparr>"
      have step: "increment sz restore r it
          = found_step sz restore r it1 (increment sz restore r it1)"
        using increment_carry[OF d cond s it1_def] .
      have ok1: "it_ok sz it1" using ok1' by (simp add: it1_def)
      have T1: "bytes_val (key_bytes it1) = ?T + 16 ^ ?d" by (simp add: it1_def val)
      have d1: "depth it1 = ?d + n" by (simp add: it1_def)
      have top: "stack it1 = stack it" by (simp add: it1_def)
      have "\<not> present sz r (?T + 16 ^ ?d)" using mn lt lbT1 by blast
      then have m': "depth it1 = 0 \<longrightarrow> \<not> present sz r (bytes_val (key_bytes it1))"
        by (simp add: T1)
      have step': "increment sz restore r it = increment sz restore r it1"
        using found_step_miss[OF ok1 m' sz, of restore] by (simp add: step)
      have "\<exists>it'. increment sz restore r it1 = Some it' \<and> key_bytes it' = replicate sz 0 @ [1]
            \<and> stack it' ! (2 * sz - 1) = stack it1 ! (2 * sz - 1) \<and> length (stack it') = 2 * sz"
      proof (rule less.hyps)
        have "0 < (16::nat) ^ ?d" by simp
        then have "?M - (?T + 16 ^ ?d) < ?M - ?T" using le by linarith
        then have "(?M - (?T + 16 ^ ?d)) + 1 \<le> ?M - ?T" by simp
        then have "((?M - (?T + 16 ^ ?d)) + 1) * (2 * sz + 1) \<le> (?M - ?T) * (2 * sz + 1)"
          by (rule mult_le_mono1)
        moreover have "(?M - (?T + 16 ^ ?d)) * (2 * sz + 1) + (?d + n)
              < ((?M - (?T + 16 ^ ?d)) + 1) * (2 * sz + 1)"
          using dn by (simp add: algebra_simps)
        ultimately show "(?M - bytes_val (key_bytes it1)) * (2 * sz + 1) + depth it1
            < (?M - ?T) * (2 * sz + 1) + ?d"
          unfolding T1 d1 by linarith
        show "it_ok sz it1" by (rule ok1)
        show "depth it1 < 2 * sz" using dn by (simp add: d1)
        show "16 ^ depth it1 dvd bytes_val (key_bytes it1)"
          using al1 by (simp add: d1 it1_def)
        show "\<forall>j. bytes_val (key_bytes it1) + of_bool (depth it1 = 0) \<le> j \<and> j < ?M
              \<longrightarrow> \<not> present sz r j"
        proof (intro allI impI)
          fix j assume j: "bytes_val (key_bytes it1) + of_bool (depth it1 = 0) \<le> j \<and> j < ?M"
          then have "?T + 16 ^ ?d \<le> j" by (simp add: T1)
          then have "?T + of_bool (?d = 0) \<le> j" using lbT1 by simp
          then show "\<not> present sz r j" using mn j by blast
        qed
      qed
      then show ?thesis by (simp add: step' top)
    next
      case False
      then have eq: "?T + 16 ^ ?d = ?M" using le by simp
      from incr_step_overflow[OF ok d eq]
      obtain bs' n where s: "incrQuartet sz (key_bytes it) ?d = (bs', n)"
        and len': "length bs' = sz + 1" and ov: "bs' ! sz = 1" and dn: "?d + n = 2 * sz" .
      define it1 where "it1 = it\<lparr>key_bytes := bs', depth := ?d + n\<rparr>"
      have step: "increment sz restore r it
          = found_step sz restore r it1 (increment sz restore r it1)"
        using increment_carry[OF d cond s it1_def] .
      have d1: "depth it1 = 2 * sz" by (simp add: it1_def dn)
      have "found_step sz restore r it1 (increment sz restore r it1) = increment sz restore r it1"
        using sz by (simp add: found_step_def d1)
      moreover have "increment sz restore r it1
          = Some (it1\<lparr>key_bytes := (memset (key_bytes it1) 0 sz)[sz := 1]\<rparr>)"
        by (rule increment_end) (simp_all add: dn it1_def ov)
      moreover have "(memset (key_bytes it1) 0 sz)[sz := 1] = replicate sz 0 @ [1]"
        using memset_end[of bs' sz] len' by (simp add: it1_def)
      ultimately show ?thesis using lens by (simp add: step it1_def)
    qed
  qed
qed

section \<open>The tree of slots\<close>

lemma valid_path_append:
  "valid_path r (p @ q) = (valid_path r p \<and> valid_path (load r p) q)"
proof (induction p arbitrary: r)
  case Nil show ?case by simp
next
  case (Cons i p) show ?case
    by (cases r) (auto simp: Cons.IH)
qed

lemma store_append:
  "valid_path r p \<Longrightarrow> store r (p @ q) x = store r p (store (load r p) q x)"
proof (induction p arbitrary: r)
  case Nil show ?case by simp
next
  case (Cons i p) then show ?case
    by (cases r) simp_all
qed

lemma load_store_same: "valid_path r p \<Longrightarrow> load (store r p x) p = x"
proof (induction p arbitrary: r)
  case Nil show ?case by simp
next
  case (Cons i p) then show ?case
    by (cases r) simp_all
qed

lemma valid_path_store: "valid_path r p \<Longrightarrow> valid_path (store r p x) p"
proof (induction p arbitrary: r)
  case Nil show ?case by simp
next
  case (Cons i p) then show ?case
    by (cases r) simp_all
qed

lemma store_store: "valid_path r p \<Longrightarrow> store (store r p x) p y = store r p y"
proof (induction p arbitrary: r)
  case Nil show ?case by simp
next
  case (Cons i p) then show ?case
    by (cases r) simp_all
qed

lemma store_load_id: "valid_path r p \<Longrightarrow> store r p (load r p) = r"
proof (induction p arbitrary: r)
  case Nil show ?case by simp
next
  case (Cons i p) then show ?case
    by (cases r) simp_all
qed

lemma is_node_empty_Next:
  "length cs = 16 \<Longrightarrow> is_node_empty (Next cs) = (\<forall>c\<in>set cs. is_empty c)"
  by (auto simp add: is_node_empty_def list_all_iff all_set_conv_all_nth)

lemma tetradeValue_lt: "tetradeValue bytes j < 16"
  by (simp add: tetradeValue_def unat_and_0xF)

lemma add_step:
  assumes vp: "valid_path r cur" and ok: "trie_ok (Suc t) (load r cur)" and d: "d < 16"
    and r1: "r1 = (if is_empty (load r cur) then store r cur node_add_empty_node else r)"
  shows "\<exists>cs. load r1 cur = Next cs \<and> length cs = 16 \<and> valid_path r1 cur
          \<and> (\<forall>x. store r1 cur x = store r cur x)
          \<and> (\<forall>p v. ins (d # p) v (load r cur) = Next (cs[d := ins p v (cs ! d)]))
          \<and> (\<forall>c\<in>set cs. trie_ok t c)"
proof (cases "load r cur")
  case Empty_node
  then have r1': "r1 = store r cur (Next (replicate 16 Empty_node))"
    using r1 by (simp add: node_add_empty_node_def)
  show ?thesis
    unfolding r1' using vp d Empty_node
    by (intro exI[of _ "replicate 16 Empty_node"])
       (simp add: load_store_same valid_path_store store_store)
next
  case (Val w)
  then show ?thesis using ok by simp
next
  case (Next cs)
  then have "r1 = r" using r1 by simp
  then show ?thesis using Next ok vp by simp
qed

lemma add_loop:
  assumes "valid_path r cur" "trie_ok (Suc t) (load r cur)"
  shows "(case element_fast_add_loop bytes t r cur of (r', c') \<Rightarrow> store r' c' (Val v))
         = store r cur (ins (map (tetradeValue bytes) (rev [0..<Suc t])) v (load r cur))"
  using assms
proof (induction t arbitrary: r cur)
  case 0
  define d where "d = tetradeValue bytes 0"
  define r1 where "r1 = (if is_empty (load r cur) then store r cur node_add_empty_node else r)"
  have dl: "d < 16" by (simp add: d_def tetradeValue_lt)
  from add_step[OF "0.prems"(1) "0.prems"(2) dl r1_def] obtain cs where
    cs: "load r1 cur = Next cs" "length cs = 16" "valid_path r1 cur"
      "\<And>x. store r1 cur x = store r cur x"
      "\<And>p v. ins (d # p) v (load r cur) = Next (cs[d := ins p v (cs ! d)])"
    by blast
  have "store r1 (cur @ [d]) (Val v) = store r1 cur (store (load r1 cur) [d] (Val v))"
    using cs(3) by (rule store_append)
  also have "\<dots> = store r cur (Next (cs[d := Val v]))"
    by (simp add: cs(1) cs(4))
  also have "\<dots> = store r cur (ins [d] v (load r cur))"
    by (simp add: cs(5))
  finally show ?case
    by (simp add: Let_def d_def r1_def)
next
  case (Suc t)
  define d where "d = tetradeValue bytes (Suc t)"
  define ds where "ds = map (tetradeValue bytes) (rev [0..<Suc t])"
  define r1 where "r1 = (if is_empty (load r cur) then store r cur node_add_empty_node else r)"
  have dl: "d < 16" by (simp add: d_def tetradeValue_lt)
  from add_step[OF Suc.prems(1) Suc.prems(2) dl r1_def] obtain cs where
    cs: "load r1 cur = Next cs" "length cs = 16" "valid_path r1 cur"
      "\<And>x. store r1 cur x = store r cur x"
      "\<And>p v. ins (d # p) v (load r cur) = Next (cs[d := ins p v (cs ! d)])"
      "\<forall>c\<in>set cs. trie_ok (Suc t) c"
    by blast
  have ld: "load r1 (cur @ [d]) = cs ! d" by (simp add: load_snoc cs(1))
  have vp: "valid_path r1 (cur @ [d])"
    using cs(1,2,3) dl by (simp add: valid_path_append)
  have ok: "trie_ok (Suc t) (load r1 (cur @ [d]))"
    unfolding ld using cs(2,6) dl by simp
  have "(case element_fast_add_loop bytes (Suc t) r cur of (r', c') \<Rightarrow> store r' c' (Val v))
        = (case element_fast_add_loop bytes t r1 (cur @ [d]) of (r', c') \<Rightarrow> store r' c' (Val v))"
    by (simp add: Let_def d_def r1_def)
  also have "\<dots> = store r1 (cur @ [d]) (ins ds v (load r1 (cur @ [d])))"
    unfolding ds_def using vp ok by (rule Suc.IH)
  also have "\<dots> = store r1 cur (store (load r1 cur) [d] (ins ds v (cs ! d)))"
    unfolding ld using cs(3) by (rule store_append)
  also have "\<dots> = store r cur (Next (cs[d := ins ds v (cs ! d)]))"
    by (simp add: cs(1) cs(4))
  also have "\<dots> = store r cur (ins (d # ds) v (load r cur))"
    by (simp add: cs(5))
  finally show ?case
    by (simp add: d_def ds_def)
qed

lemma npath_map: "npath V hi 0 = map (\<lambda>j. V div 16 ^ j mod 16) (rev [0..<hi])"
  by (simp add: npath_def)

lemma tetrade_path:
  assumes "length bs = sz" "0 < sz"
  shows "map (tetradeValue bs) (rev [0..<Suc (MAX_DEPTH sz - 1)]) = npath (bytes_val bs) (2 * sz) 0"
proof -
  have "tetradeValue bs j = bytes_val bs div 16 ^ j mod 16" if "j < 2 * sz" for j
    using that assms by (intro tetradeValue_val) auto
  moreover have "Suc (MAX_DEPTH sz - 1) = 2 * sz" using assms by (simp add: MAX_DEPTH_def)
  ultimately show ?thesis by (simp add: npath_def)
qed

lemma find_loop:
  "element_fast_find_loop bytes t cur = cur @ map (tetradeValue bytes) (rev [0..<Suc t])"
  by (induction t arbitrary: cur) simp_all

text \<open>The two functions on the path of the key.\<close>

lemma element_fast_find_path:
  assumes "LENGTH('k::len) = 8 * sz" "0 < sz"
  shows "element_fast_find sz r (key::'k word) = load r (npath (unat key) (2 * sz) 0)"
  using tetrade_path[of "key_to_bytes sz key" sz] assms
  by (simp add: element_fast_find_def find_loop bytes_val_key)

lemma element_fast_add_ins:
  assumes "LENGTH('k::len) = 8 * sz" "0 < sz" "trie_ok (2 * sz) r"
  shows "element_fast_add sz r (key::'k word) v = (ins (npath (unat key) (2 * sz) 0) v r, Val v)"
proof -
  have s: "Suc (MAX_DEPTH sz - 1) = 2 * sz" using assms(2) by (simp add: MAX_DEPTH_def)
  have "(case element_fast_add_loop (key_to_bytes sz key) (MAX_DEPTH sz - 1) r [] of
           (r', c') \<Rightarrow> store r' c' (Val v))
        = store r [] (ins (map (tetradeValue (key_to_bytes sz key))
                            (rev [0..<Suc (MAX_DEPTH sz - 1)])) v (load r []))"
    by (rule add_loop) (use s assms(3) in simp_all)
  then show ?thesis
    using tetrade_path[of "key_to_bytes sz key" sz] assms(1,2)
    by (simp add: element_fast_add_def bytes_val_key split: prod.splits)
qed

lemma all_update:
  assumes "\<forall>c\<in>set cs. P c" "P x"
  shows "\<forall>c\<in>set (cs[i := x]). P c"
  using assms set_update_subset_insert[of cs i x] by blast

lemma sum_update:
  fixes f :: "'a \<Rightarrow> nat"
  shows "i < length cs \<Longrightarrow> sum_list (map f (cs[i := x])) + f (cs ! i) = sum_list (map f cs) + f x"
proof (induction cs arbitrary: i)
  case Nil then show ?case by simp
next
  case (Cons c cs) then show ?case by (cases i) auto
qed

lemma leaf_count_empty: "is_empty c \<Longrightarrow> leaf_count c = 0"
  by (cases c) simp_all

lemma sum_all_empty: "\<forall>c\<in>set cs. is_empty c \<Longrightarrow> sum_list (map leaf_count cs) = 0"
  by (induction cs) (simp_all add: leaf_count_empty)

lemma ins_not_empty: "trie_ok (length p) t \<Longrightarrow> \<not> is_empty (ins p v t)"
  by (cases p; cases t) simp_all

lemma trie_ok_ins:
  "trie_ok (length p) t \<Longrightarrow> \<forall>i\<in>set p. i < 16 \<Longrightarrow> trie_ok (length p) (ins p v t)"
proof (induction p arbitrary: t)
  case Nil then show ?case by simp
next
  case (Cons i p)
  show ?case
  proof (cases t)
    case Empty_node
    have "trie_ok (length p) (ins p v Empty_node)" using Cons.prems by (intro Cons.IH) simp_all
    then have "\<forall>c\<in>set ((replicate 16 Empty_node)[i := ins p v Empty_node]). trie_ok (length p) c"
      by (intro all_update) simp_all
    then show ?thesis using Empty_node by simp
  next
    case (Val w) then show ?thesis using Cons.prems by simp
  next
    case (Next cs)
    have l: "length cs = 16" and a: "\<forall>c\<in>set cs. trie_ok (length p) c"
      using Cons.prems(1) Next by simp_all
    have "trie_ok (length p) (cs ! i)" using a l Cons.prems(2) by simp
    then have "trie_ok (length p) (ins p v (cs ! i))" using Cons.prems(2) by (intro Cons.IH) simp_all
    with a have "\<forall>c\<in>set (cs[i := ins p v (cs ! i)]). trie_ok (length p) c" by (rule all_update)
    then show ?thesis using Next l by simp
  qed
qed

lemma load_ins_same:
  "trie_ok (length p) t \<Longrightarrow> \<forall>i\<in>set p. i < 16 \<Longrightarrow> load (ins p v t) p = Val v"
proof (induction p arbitrary: t)
  case Nil then show ?case by simp
next
  case (Cons i p)
  show ?case
  proof (cases t)
    case Empty_node
    have "load (ins p v Empty_node) p = Val v" using Cons.prems by (intro Cons.IH) simp_all
    then show ?thesis using Empty_node Cons.prems(2) by simp
  next
    case (Val w) then show ?thesis using Cons.prems by simp
  next
    case (Next cs)
    have l: "length cs = 16" and a: "\<forall>c\<in>set cs. trie_ok (length p) c"
      using Cons.prems(1) Next by simp_all
    have "trie_ok (length p) (cs ! i)" using a l Cons.prems(2) by simp
    then have "load (ins p v (cs ! i)) p = Val v" using Cons.prems(2) by (intro Cons.IH) simp_all
    then show ?thesis using Next l Cons.prems(2) by simp
  qed
qed

lemma load_ins_other:
  "trie_ok (length p) t \<Longrightarrow> \<forall>i\<in>set p. i < 16 \<Longrightarrow> \<forall>i\<in>set q. i < 16 \<Longrightarrow>
   length q = length p \<Longrightarrow> q \<noteq> p \<Longrightarrow> load (ins p v t) q = load t q"
proof (induction p arbitrary: t q)
  case Nil then show ?case by simp
next
  case (Cons i p)
  from Cons.prems(4) obtain j q' where q: "q = j # q'" and lq: "length q' = length p"
    by (cases q) auto
  have j: "j < 16" and i: "i < 16" using Cons.prems(2,3) q by simp_all
  show ?case
  proof (cases t)
    case Empty_node
    show ?thesis
    proof (cases "j = i")
      case True
      then have "q' \<noteq> p" using Cons.prems(5) q by simp
      then have "load (ins p v Empty_node) q' = load Empty_node q'"
        using Cons.prems(2,3) lq q by (intro Cons.IH) simp_all
      then show ?thesis using Empty_node q True i by (simp add: load_Empty)
    next
      case False
      then show ?thesis using Empty_node q i j by (simp add: load_Empty)
    qed
  next
    case (Val w) then show ?thesis using Cons.prems by simp
  next
    case (Next cs)
    have l: "length cs = 16" and a: "\<forall>c\<in>set cs. trie_ok (length p) c"
      using Cons.prems(1) Next by simp_all
    show ?thesis
    proof (cases "j = i")
      case True
      then have "q' \<noteq> p" using Cons.prems(5) q by simp
      moreover have "trie_ok (length p) (cs ! i)" using a l i by simp
      ultimately have "load (ins p v (cs ! i)) q' = load (cs ! i) q'"
        using Cons.prems(2,3) lq q by (intro Cons.IH) simp_all
      then show ?thesis using Next q True i l by simp
    next
      case False
      then show ?thesis using Next q by simp
    qed
  qed
qed

lemma leaf_count_ins:
  "trie_ok (length p) t \<Longrightarrow> \<forall>i\<in>set p. i < 16 \<Longrightarrow> is_empty (load t p) \<Longrightarrow>
   leaf_count (ins p v t) = Suc (leaf_count t)"
proof (induction p arbitrary: t)
  case Nil then show ?case by (simp add: leaf_count_empty)
next
  case (Cons i p)
  have i: "i < 16" using Cons.prems(2) by simp
  show ?case
  proof (cases t)
    case Empty_node
    have "leaf_count (ins p v Empty_node) = Suc (leaf_count (Empty_node :: 'a ptr_t))"
      using Cons.prems(2) by (intro Cons.IH) (simp_all add: load_Empty)
    moreover have "sum_list (map leaf_count ((replicate 16 (Empty_node :: 'a ptr_t))[i := ins p v Empty_node]))
           + leaf_count (replicate 16 (Empty_node :: 'a ptr_t) ! i)
         = sum_list (map leaf_count (replicate 16 (Empty_node :: 'a ptr_t))) + leaf_count (ins p v Empty_node)"
      using i by (intro sum_update) simp
    ultimately show ?thesis using Empty_node i by (simp add: sum_all_empty)
  next
    case (Val w) then show ?thesis using Cons.prems by simp
  next
    case (Next cs)
    have l: "length cs = 16" and a: "\<forall>c\<in>set cs. trie_ok (length p) c"
      using Cons.prems(1) Next by simp_all
    have "trie_ok (length p) (cs ! i)" using a l i by simp
    moreover have "is_empty (load (cs ! i) p)" using Cons.prems(3) Next by simp
    ultimately have "leaf_count (ins p v (cs ! i)) = Suc (leaf_count (cs ! i))"
      using Cons.prems(2) by (intro Cons.IH) simp_all
    moreover have "sum_list (map leaf_count (cs[i := ins p v (cs ! i)])) + leaf_count (cs ! i)
         = sum_list (map leaf_count cs) + leaf_count (ins p v (cs ! i))"
      using i l by (intro sum_update) simp
    ultimately show ?thesis using Next by simp
  qed
qed

lemma no_empty_ins:
  "trie_ok (length p) t \<Longrightarrow> \<forall>i\<in>set p. i < 16 \<Longrightarrow> no_empty_node t \<Longrightarrow>
   no_empty_node (ins p v t)"
proof (induction p arbitrary: t)
  case Nil then show ?case by simp
next
  case (Cons i p)
  have i: "i < 16" using Cons.prems(2) by simp
  show ?case
  proof (cases t)
    case Empty_node
    let ?x = "ins p v (Empty_node :: 'a ptr_t)"
    let ?cs = "(replicate 16 (Empty_node :: 'a ptr_t))[i := ?x]"
    have x: "no_empty_node ?x" using Cons.prems(2) by (intro Cons.IH) simp_all
    have ne: "\<not> is_empty ?x" by (rule ins_not_empty) simp
    have "?x \<in> set ?cs" using i by (simp add: set_update_memI)
    with ne have "\<not> is_node_empty (Next ?cs)" by (auto simp: is_node_empty_Next)
    moreover have "\<forall>c\<in>set ?cs. no_empty_node c" using x by (intro all_update) simp_all
    ultimately show ?thesis using Empty_node by simp
  next
    case (Val w) then show ?thesis using Cons.prems by simp
  next
    case (Next cs)
    have l: "length cs = 16" and a: "\<forall>c\<in>set cs. trie_ok (length p) c"
      using Cons.prems(1) Next by simp_all
    have b: "\<forall>c\<in>set cs. no_empty_node c" using Cons.prems(3) Next by simp
    let ?x = "ins p v (cs ! i)"
    let ?cs = "cs[i := ?x]"
    have t: "trie_ok (length p) (cs ! i)" using a l i by simp
    moreover have "no_empty_node (cs ! i)" using b l i by simp
    ultimately have x: "no_empty_node ?x" using Cons.prems(2) by (intro Cons.IH) simp_all
    have ne: "\<not> is_empty ?x" using t by (rule ins_not_empty)
    have "?x \<in> set ?cs" using i l by (simp add: set_update_memI)
    with ne have "\<not> is_node_empty (Next ?cs)" using l by (auto simp: is_node_empty_Next)
    moreover have "\<forall>c\<in>set ?cs. no_empty_node c" using b x by (rule all_update)
    ultimately show ?thesis using Next by simp
  qed
qed

lemma trie_ok_del: "trie_ok (length p) t \<Longrightarrow> trie_ok (length p) (del p t)"
proof (induction p arbitrary: t)
  case Nil then show ?case by simp
next
  case (Cons i p)
  show ?case
  proof (cases t)
    case Empty_node then show ?thesis by simp
  next
    case (Val w) then show ?thesis using Cons.prems by simp
  next
    case (Next cs)
    have l: "length cs = 16" and a: "\<forall>c\<in>set cs. trie_ok (length p) c"
      using Cons.prems(1) Next by simp_all
    show ?thesis
    proof (cases "i < 16")
      case True
      then have "trie_ok (length p) (cs ! i)" using a l by simp
      then have "trie_ok (length p) (del p (cs ! i))" by (rule Cons.IH)
      with a have "\<forall>c\<in>set (cs[i := del p (cs ! i)]). trie_ok (length p) c" by (rule all_update)
      then show ?thesis using Next l by simp
    next
      case False
      then have "cs[i := del p (cs ! i)] = cs" using l by (simp add: list_update_beyond)
      then show ?thesis using Next l a by simp
    qed
  qed
qed

lemma load_del_same:
  "trie_ok (length p) t \<Longrightarrow> \<forall>i\<in>set p. i < 16 \<Longrightarrow> load (del p t) p = Empty_node"
proof (induction p arbitrary: t)
  case Nil then show ?case by simp
next
  case (Cons i p)
  have i: "i < 16" using Cons.prems(2) by simp
  show ?case
  proof (cases t)
    case Empty_node then show ?thesis by (simp add: load_Empty)
  next
    case (Val w) then show ?thesis using Cons.prems by simp
  next
    case (Next cs)
    have l: "length cs = 16" and a: "\<forall>c\<in>set cs. trie_ok (length p) c"
      using Cons.prems(1) Next by simp_all
    have "trie_ok (length p) (cs ! i)" using a l i by simp
    then have "load (del p (cs ! i)) p = Empty_node" using Cons.prems(2) by (intro Cons.IH) simp_all
    then show ?thesis using Next l i by (simp add: load_Empty)
  qed
qed

lemma load_del_other:
  "trie_ok (length p) t \<Longrightarrow> \<forall>i\<in>set p. i < 16 \<Longrightarrow> \<forall>i\<in>set q. i < 16 \<Longrightarrow>
   length q = length p \<Longrightarrow> q \<noteq> p \<Longrightarrow> load (del p t) q = load t q"
proof (induction p arbitrary: t q)
  case Nil then show ?case by simp
next
  case (Cons i p)
  from Cons.prems(4) obtain j q' where q: "q = j # q'" and lq: "length q' = length p"
    by (cases q) auto
  have j: "j < 16" and i: "i < 16" using Cons.prems(2,3) q by simp_all
  show ?case
  proof (cases t)
    case Empty_node then show ?thesis by simp
  next
    case (Val w) then show ?thesis using Cons.prems by simp
  next
    case (Next cs)
    have l: "length cs = 16" and a: "\<forall>c\<in>set cs. trie_ok (length p) c"
      using Cons.prems(1) Next by simp_all
    let ?cs = "cs[i := del p (cs ! i)]"
    have same: "load (?cs ! j) q' = load (cs ! j) q'"
    proof (cases "j = i")
      case True
      then have "q' \<noteq> p" using Cons.prems(5) q by simp
      moreover have "trie_ok (length p) (cs ! i)" using a l i by simp
      ultimately have "load (del p (cs ! i)) q' = load (cs ! i) q'"
        using Cons.prems(2,3) lq q by (intro Cons.IH) simp_all
      then show ?thesis using True i l by simp
    next
      case False then show ?thesis by simp
    qed
    show ?thesis
    proof (cases "is_node_empty (Next ?cs)")
      case True
      then have "is_empty (?cs ! j)" using l j by (simp add: is_node_empty_Next)
      then have "load (?cs ! j) q' = Empty_node" by (simp add: is_empty_iff load_Empty)
      then show ?thesis using True Next q same by (simp add: load_Empty)
    next
      case False
      then show ?thesis using Next q same by simp
    qed
  qed
qed

lemma leaf_count_del:
  "trie_ok (length p) t \<Longrightarrow> \<forall>i\<in>set p. i < 16 \<Longrightarrow> \<not> is_empty (load t p) \<Longrightarrow>
   Suc (leaf_count (del p t)) = leaf_count t"
proof (induction p arbitrary: t)
  case Nil then show ?case by (cases t) simp_all
next
  case (Cons i p)
  have i: "i < 16" using Cons.prems(2) by simp
  show ?case
  proof (cases t)
    case Empty_node then show ?thesis using Cons.prems(3) by (simp add: load_Empty)
  next
    case (Val w) then show ?thesis using Cons.prems by simp
  next
    case (Next cs)
    have l: "length cs = 16" and a: "\<forall>c\<in>set cs. trie_ok (length p) c"
      using Cons.prems(1) Next by simp_all
    let ?cs = "cs[i := del p (cs ! i)]"
    have "trie_ok (length p) (cs ! i)" using a l i by simp
    moreover have "\<not> is_empty (load (cs ! i) p)" using Cons.prems(3) Next by simp
    ultimately have ih: "Suc (leaf_count (del p (cs ! i))) = leaf_count (cs ! i)"
      using Cons.prems(2) by (intro Cons.IH) simp_all
    have "sum_list (map leaf_count ?cs) + leaf_count (cs ! i)
         = sum_list (map leaf_count cs) + leaf_count (del p (cs ! i))"
      using i l by (intro sum_update) simp
    with ih have s: "Suc (sum_list (map leaf_count ?cs)) = sum_list (map leaf_count cs)" by simp
    show ?thesis
    proof (cases "is_node_empty (Next ?cs)")
      case True
      then have "\<forall>c\<in>set ?cs. is_empty c" using l by (simp add: is_node_empty_Next)
      then have z: "sum_list (map leaf_count ?cs) = 0" by (rule sum_all_empty)
      have "Suc 0 = sum_list (map leaf_count cs)" using s unfolding z .
      then show ?thesis using True Next by simp
    next
      case False then show ?thesis using Next s by simp
    qed
  qed
qed

lemma no_empty_del:
  "trie_ok (length p) t \<Longrightarrow> no_empty_node t \<Longrightarrow> no_empty_node (del p t)"
proof (induction p arbitrary: t)
  case Nil then show ?case by simp
next
  case (Cons i p)
  show ?case
  proof (cases t)
    case Empty_node then show ?thesis by simp
  next
    case (Val w) then show ?thesis by simp
  next
    case (Next cs)
    have l: "length cs = 16" and a: "\<forall>c\<in>set cs. trie_ok (length p) c"
      using Cons.prems(1) Next by simp_all
    have b: "\<forall>c\<in>set cs. no_empty_node c" using Cons.prems(2) Next by simp
    let ?cs = "cs[i := del p (cs ! i)]"
    show ?thesis
    proof (cases "i < 16")
      case True
      have "trie_ok (length p) (cs ! i)" using a l True by simp
      moreover have "no_empty_node (cs ! i)" using b l True by simp
      ultimately have "no_empty_node (del p (cs ! i))" by (rule Cons.IH)
      with b have "\<forall>c\<in>set ?cs. no_empty_node c" by (rule all_update)
      then show ?thesis using Next by simp
    next
      case False
      then have "?cs = cs" using l by (simp add: list_update_beyond)
      then show ?thesis using Next Cons.prems(2) by simp
    qed
  qed
qed

lemma valid_path_present:
  "trie_ok (length p) t \<Longrightarrow> \<forall>i\<in>set p. i < 16 \<Longrightarrow> \<not> is_empty (load t p) \<Longrightarrow> valid_path t p"
proof (induction p arbitrary: t)
  case Nil then show ?case by simp
next
  case (Cons i p)
  show ?case
  proof (cases t)
    case Empty_node then show ?thesis using Cons.prems(3) by (simp add: load_Empty)
  next
    case (Val w) then show ?thesis using Cons.prems by simp
  next
    case (Next cs)
    have l: "length cs = 16" and a: "\<forall>c\<in>set cs. trie_ok (length p) c"
      using Cons.prems(1) Next by simp_all
    have i: "i < 16" using Cons.prems(2) by simp
    have "trie_ok (length p) (cs ! i)" using a l i by simp
    moreover have "\<not> is_empty (load (cs ! i) p)" using Cons.prems(3) Next by simp
    ultimately have "valid_path (cs ! i) p" using Cons.prems(2) by (intro Cons.IH) simp_all
    then show ?thesis using Next l i by simp
  qed
qed

lemma erase_loop_step:
  assumes "d < MAX_DEPTH sz"
  shows "erase_elem_loop sz r stk d =
         (if is_node_empty (load r (stk ! d))
          then erase_elem_loop sz (store r (stk ! d) Empty_node) stk (d + 1) else (r, d))"
  using assms by (subst erase_elem_loop.simps) simp

lemma erase_loop_end: "\<not> d < MAX_DEPTH sz \<Longrightarrow> erase_elem_loop sz r stk d = (r, d)"
  by (subst erase_elem_loop.simps) simp

lemma erase_loop_del:
  assumes "valid_path r0 (cur @ q)" "length (cur @ q) = MAX_DEPTH sz"
    "\<forall>j < MAX_DEPTH sz. stk ! j = take (MAX_DEPTH sz - 1 - j) (cur @ q)"
    "\<forall>i\<in>set q. i < 16"
  shows "(is_empty (del q (load r0 cur)) \<longrightarrow>
            erase_elem_loop sz (store r0 (cur @ q) Empty_node) stk 0
            = erase_elem_loop sz (store r0 cur Empty_node) stk (length q))
       \<and> (\<not> is_empty (del q (load r0 cur)) \<longrightarrow>
            fst (erase_elem_loop sz (store r0 (cur @ q) Empty_node) stk 0)
            = store r0 cur (del q (load r0 cur)))"
  using assms
proof (induction q arbitrary: cur)
  case Nil then show ?case by simp
next
  case (Cons i p)
  let ?P = "cur @ i # p"
  have vc: "valid_path r0 cur" and vq: "valid_path (load r0 cur) (i # p)"
    using Cons.prems(1) by (simp_all add: valid_path_append)
  from vq obtain cs where cs: "load r0 cur = Next cs" and i: "i < length cs"
    by (cases "load r0 cur") auto
  have P': "?P = (cur @ [i]) @ p" by simp
  have ld: "load r0 (cur @ [i]) = cs ! i" by (simp add: load_snoc cs)
  have ih: "(is_empty (del p (cs ! i)) \<longrightarrow>
            erase_elem_loop sz (store r0 ?P Empty_node) stk 0
            = erase_elem_loop sz (store r0 (cur @ [i]) Empty_node) stk (length p))
       \<and> (\<not> is_empty (del p (cs ! i)) \<longrightarrow>
            fst (erase_elem_loop sz (store r0 ?P Empty_node) stk 0)
            = store r0 (cur @ [i]) (del p (cs ! i)))"
    using Cons.IH[of "cur @ [i]"] Cons.prems unfolding ld by simp
  have st: "store r0 (cur @ [i]) x = store r0 cur (Next (cs[i := x]))" for x
    using store_append[OF vc, of "[i]" x] cs by simp
  have lp: "length p < MAX_DEPTH sz" using Cons.prems(2) by simp
  have stk: "stk ! length p = cur"
  proof -
    have "stk ! length p = take (MAX_DEPTH sz - 1 - length p) ?P" using Cons.prems(3) lp by simp
    moreover have "MAX_DEPTH sz - 1 - length p = length cur" using Cons.prems(2) by simp
    ultimately show ?thesis by simp
  qed
  show ?case
  proof (cases "is_empty (del p (cs ! i))")
    case True
    then have e: "del p (cs ! i) = Empty_node" by (simp add: is_empty_iff)
    let ?r = "store r0 cur (Next (cs[i := Empty_node]))"
    have l0: "erase_elem_loop sz (store r0 ?P Empty_node) stk 0
              = erase_elem_loop sz ?r stk (length p)"
      using ih True by (simp add: st)
    have ldr: "load ?r cur = Next (cs[i := Empty_node])" using vc by (rule load_store_same)
    have str: "store ?r cur Empty_node = store r0 cur Empty_node" using vc by (rule store_store)
    have step: "erase_elem_loop sz ?r stk (length p) =
          (if is_node_empty (Next (cs[i := Empty_node]))
           then erase_elem_loop sz (store r0 cur Empty_node) stk (length p + 1) else (?r, length p))"
      using erase_loop_step[OF lp, of ?r stk] by (simp add: stk ldr str)
    show ?thesis
    proof (cases "is_node_empty (Next (cs[i := Empty_node]))")
      case True
      then show ?thesis using l0 step cs e by simp
    next
      case False
      then show ?thesis using l0 step cs e by simp
    qed
  next
    case False
    then have "fst (erase_elem_loop sz (store r0 ?P Empty_node) stk 0)
            = store r0 cur (Next (cs[i := del p (cs ! i)]))"
      using ih by (simp add: st)
    moreover have "\<not> is_node_empty (Next (cs[i := del p (cs ! i)]))"
    proof
      assume "is_node_empty (Next (cs[i := del p (cs ! i)]))"
      then have "list_all (\<lambda>j. is_empty ((cs[i := del p (cs ! i)]) ! j)) [0..<16]"
        by (simp add: is_node_empty_def)
      moreover have "i < 16" using Cons.prems(4) by simp
      ultimately have "is_empty ((cs[i := del p (cs ! i)]) ! i)" by (simp add: list_all_iff)
      then show False using False i by simp
    qed
    ultimately show ?thesis using cs by simp
  qed
qed

lemma npath_digits: "\<forall>i\<in>set (npath V hi lo). i < 16"
  by (simp add: npath_def)

lemma npath_take: "Suc j \<le> hi \<Longrightarrow> take (hi - 1 - j) (npath V hi 0) = npath V hi (Suc j)"
  using npath_split[of 0 "Suc j" hi V] by simp

lemma erase_loop_path:
  assumes "valid_path r0 (npath K (2 * sz) 0)"
    "\<forall>j < 2 * sz. stk ! j = npath K (2 * sz) (Suc j)"
  shows "fst (erase_elem_loop sz (store r0 (npath K (2 * sz) 0) Empty_node) stk 0)
         = del (npath K (2 * sz) 0) r0"
proof -
  let ?P = "npath K (2 * sz) 0"
  have a: "valid_path r0 ([] @ ?P)" using assms(1) by simp
  have b: "length ([] @ ?P) = MAX_DEPTH sz" by (simp add: MAX_DEPTH_def)
  have c: "\<forall>j < MAX_DEPTH sz. stk ! j = take (MAX_DEPTH sz - 1 - j) ([] @ ?P)"
  proof (intro allI impI)
    fix j assume "j < MAX_DEPTH sz"
    then have j: "j < 2 * sz" by (simp add: MAX_DEPTH_def)
    have m: "MAX_DEPTH sz - 1 - j = 2 * sz - 1 - j" by (simp add: MAX_DEPTH_def)
    have "take (2 * sz - 1 - j) ?P = npath K (2 * sz) (Suc j)"
      using j by (intro npath_take) simp
    then show "stk ! j = take (MAX_DEPTH sz - 1 - j) ([] @ ?P)"
      unfolding m using assms(2) j by simp
  qed
  note e = erase_loop_del[OF a b c npath_digits]
  show ?thesis
  proof (cases "is_empty (del ?P r0)")
    case True
    then have "erase_elem_loop sz (store r0 ?P Empty_node) stk 0
               = erase_elem_loop sz Empty_node stk (MAX_DEPTH sz)"
      using e by (simp add: MAX_DEPTH_def mult.commute)
    then show ?thesis using True by (simp add: erase_loop_end is_empty_iff)
  next
    case False
    then show ?thesis using e by simp
  qed
qed

lemma fill_loop:
  assumes "t + 2 \<le> n" "cur = npath T n (t + 2)" "length stk = n"
    "\<forall>j<n. tetradeValue bytes j = T div 16 ^ j mod 16"
  shows "length (fill_ptr_stack_loop bytes t cur stk) = n
       \<and> (\<forall>d\<le>t. fill_ptr_stack_loop bytes t cur stk ! d = npath T n (Suc d))
       \<and> (\<forall>d. t < d \<longrightarrow> fill_ptr_stack_loop bytes t cur stk ! d = stk ! d)"
  using assms
proof (induction t arbitrary: cur stk)
  case 0
  have "tetradeValue bytes 1 = T div 16 ^ 1 mod 16" using "0.prems"(1,4) by simp
  moreover have "npath T n (Suc 0) = npath T n (Suc (Suc 0)) @ [T div 16 ^ Suc 0 mod 16]"
    using "0.prems"(1) by (intro npath_step) simp
  ultimately show ?case using "0.prems" by simp
next
  case (Suc t)
  let ?cur = "cur @ [tetradeValue bytes (Suc t + 1)]"
  have tv: "tetradeValue bytes (Suc t + 1) = T div 16 ^ (Suc t + 1) mod 16"
    using Suc.prems(1,4) by simp
  have "npath T n (Suc t + 1) = npath T n (Suc (Suc t + 1)) @ [T div 16 ^ (Suc t + 1) mod 16]"
    using Suc.prems(1) by (intro npath_step) simp
  then have c: "?cur = npath T n (t + 2)" using Suc.prems(2) tv by simp
  have ih: "length (fill_ptr_stack_loop bytes t ?cur (stk[Suc t := ?cur])) = n
       \<and> (\<forall>d\<le>t. fill_ptr_stack_loop bytes t ?cur (stk[Suc t := ?cur]) ! d = npath T n (Suc d))
       \<and> (\<forall>d. t < d \<longrightarrow> fill_ptr_stack_loop bytes t ?cur (stk[Suc t := ?cur]) ! d
              = (stk[Suc t := ?cur]) ! d)"
    using Suc.prems(1,3,4) c by (intro Suc.IH) simp_all
  have e: "fill_ptr_stack_loop bytes (Suc t) cur stk
           = fill_ptr_stack_loop bytes t ?cur (stk[Suc t := ?cur])"
    by (simp add: Let_def)
  have "fill_ptr_stack_loop bytes (Suc t) cur stk ! d = npath T n (Suc d)" if "d \<le> Suc t" for d
  proof (cases "d \<le> t")
    case True then show ?thesis using ih e by simp
  next
    case False
    then have d: "d = Suc t" using that by simp
    have "Suc t < length stk" using Suc.prems(1,3) by simp
    then show ?thesis unfolding e d using ih c by simp
  qed
  moreover have "fill_ptr_stack_loop bytes (Suc t) cur stk ! d = stk ! d" if "Suc t < d" for d
    using that ih e by simp
  ultimately show ?case using ih e by simp
qed

lemma depth_loop_le: "depth_loop r stk n \<le> n"
  by (induction n) simp_all

lemma depth_loop_zero:
  "\<forall>d. 0 < d \<and> d \<le> n \<longrightarrow> \<not> is_empty (load r (stk ! d)) \<Longrightarrow> depth_loop r stk n = 0"
  by (induction n) simp_all

lemma horner_bytes: "horner_sum ucast 256 bs = (of_nat (bytes_val bs) :: 'k::len word)"
  by (induction bs) (simp_all add: algebra_simps)

lemma bytes_to_key_val: "bytes_to_key sz bs = (of_nat (bytes_val (take sz bs)) :: 'k::len word)"
  by (simp add: bytes_to_key_def horner_bytes)

lemma bytes_to_key_key:
  assumes "LENGTH('k::len) = 8 * sz"
  shows "bytes_to_key sz (key_to_bytes sz (key::'k word) @ bs) = key"
  using bytes_val_key[OF assms, of key] by (simp add: bytes_to_key_val)

lemma key_it_ok:
  assumes "LENGTH('k::len) = 8 * sz"
  shows "it_ok sz (key_it sz r (key::'k word))"
proof -
  have "unat key < 2 ^ LENGTH('k)" by (rule unsigned_less)
  then have "unat key < 16 ^ (2 * sz)" by (simp add: assms power_mult)
  then show ?thesis
    using bytes_val_key[OF assms, of key]
    by (simp add: it_ok_def key_it_def bytes_val_append)
qed

lemma key_it_valid:
  assumes "LENGTH('k::len) = 8 * sz" "0 < sz"
  shows "target_valid r (key_it sz r (key::'k word)) = present sz r (unat key)"
proof
  assume "target_valid r (key_it sz r key)"
  then show "present sz r (unat key)"
    using leaf_present[OF key_it_ok[OF assms(1)], of r key r] assms(2)
      bytes_val_key[OF assms(1), of key]
    by (simp add: target_valid_def key_it_def bytes_val_append)
next
  assume p: "present sz r (unat key)"
  let ?stk = "map (\<lambda>d. npath (unat key) (2 * sz) (Suc d)) [0..<2 * sz]"
  have "\<not> is_empty (load r (?stk ! d))" if "0 < d \<and> d \<le> 2 * sz - 1" for d
  proof
    assume e: "is_empty (load r (?stk ! d))"
    have d: "d < 2 * sz" using that assms(2) by linarith
    have "npath (unat key) (2 * sz) 0 = npath (unat key) (2 * sz) (Suc d) @ npath (unat key) (Suc d) 0"
      using d by (intro npath_split) simp_all
    then have "is_empty (load r (npath (unat key) (2 * sz) 0))"
      using e d load_empty_append[of r "npath (unat key) (2 * sz) (Suc d)"] by simp
    then show False using p by (simp add: present_def)
  qed
  then have "depth_loop r ?stk (2 * sz - 1) = 0" by (intro depth_loop_zero) blast
  then have d0: "depth (key_it sz r key) = 0" by (simp add: key_it_def)
  show "target_valid r (key_it sz r key)"
    using leaf_present[OF key_it_ok[OF assms(1)] d0 assms(2), of r] p d0
      bytes_val_key[OF assms(1), of key]
    by (simp add: target_valid_def key_it_def bytes_val_append)
qed

lemma drop_replicate_Suc: "drop n (x # replicate n x) = [x]"
  by (induction n) simp_all

lemma replicate_update_same: "(replicate n x)[i := x] = replicate n x"
  by (induction n arbitrary: i) (auto split: nat.splits)

lemma fill_ptr_stack_key:
  assumes "LENGTH('k::len) = 8 * sz" "0 < sz"
  shows "fill_ptr_stack_loop (key_to_bytes sz (key::'k word) @ [0]) (MAX_DEPTH sz - 2) []
           (replicate (MAX_DEPTH sz) [])
         = map (\<lambda>d. npath (unat key) (2 * sz) (Suc d)) [0..<2 * sz]"
proof -
  let ?bs = "key_to_bytes sz key @ [0]"
  let ?f = "fill_ptr_stack_loop ?bs (2 * sz - 2) [] (replicate (2 * sz) [])"
  have bv: "bytes_val ?bs = unat key"
    using bytes_val_key[OF assms(1), of key] by (simp add: bytes_val_append)
  have tv: "\<forall>j<2 * sz. tetradeValue ?bs j = unat key div 16 ^ j mod 16"
  proof (intro allI impI)
    fix j assume "j < 2 * sz"
    then have "j div 2 < length ?bs" by simp
    then show "tetradeValue ?bs j = unat key div 16 ^ j mod 16"
      using tetradeValue_val[of j ?bs] bv by simp
  qed
  have a: "2 * sz - 2 + 2 \<le> 2 * sz" using assms(2) by simp
  have "2 * sz - 2 + 2 = 2 * sz" using assms(2) by linarith
  then have b: "[] = npath (unat key) (2 * sz) (2 * sz - 2 + 2)" by simp
  have c: "length (replicate (2 * sz) ([]::nat list)) = 2 * sz" by simp
  note f = fill_loop[OF a b c tv]
  have "?f = map (\<lambda>d. npath (unat key) (2 * sz) (Suc d)) [0..<2 * sz]"
  proof (rule nth_equalityI)
    show "length ?f = length (map (\<lambda>d. npath (unat key) (2 * sz) (Suc d)) [0..<2 * sz])"
      using f by simp
  next
    fix i assume "i < length ?f"
    then have i: "i < 2 * sz" using f by simp
    show "?f ! i = map (\<lambda>d. npath (unat key) (2 * sz) (Suc d)) [0..<2 * sz] ! i"
    proof (cases "i \<le> 2 * sz - 2")
      case True then show ?thesis using f i by simp
    next
      case False
      then have i': "i = 2 * sz - 1" using i by linarith
      then have "2 * sz - 2 < i" using assms(2) by linarith
      then have "?f ! i = replicate (2 * sz) [] ! i" using f by blast
      then show ?thesis using i i' assms(2) by simp
    qed
  qed
  then show ?thesis by (simp add: MAX_DEPTH_def mult.commute)
qed

lemma iterator_base_key_eq:
  assumes "LENGTH('k::len) = 8 * sz" "0 < sz"
  shows "iterator_base_key sz restore r (key::'k word) =
         (if present sz r (unat key)
          then (key_it sz r key)\<lparr>currentValue :=
                 Some (restore key, load r (npath (unat key) (2 * sz) 0))\<rparr>
          else key_it sz r key)"
proof -
  let ?it = "key_it sz r key"
  have m: "MAX_DEPTH sz - 1 < MAX_DEPTH sz" using assms(2) by (simp add: MAX_DEPTH_def)
  have e: "iterator_base_key sz restore r key =
         (if target_valid r ?it
          then ?it\<lparr>currentValue :=
                 Some (restore key,
                       next_slot (load r (stack ?it ! 0)) (tetradeValue (key_bytes ?it) 0))\<rparr>
          else ?it)"
    using m
    using fill_ptr_stack_key[OF assms, where key = key]
    by (simp add: iterator_base_key_def iterator_base_root_def fill_ptr_stack_def Let_def
        replicate_update_same drop_replicate_Suc list_update_append key_it_def MAX_DEPTH_def
        mult.commute)
  have "next_slot (load r (stack ?it ! 0)) (tetradeValue (key_bytes ?it) 0)
        = load r (npath (unat key) (2 * sz) 0)"
    if "target_valid r ?it"
  proof -
    have d0: "depth ?it \<le> 0" using that by (simp add: target_valid_def)
    have "bytes_val (key_bytes ?it) = unat key"
      using bytes_val_key[OF assms(1), of key] by (simp add: key_it_def bytes_val_append)
    moreover have "it_ok sz ?it" using assms(1) by (rule key_it_ok)
    then have "next_slot (load r (stack ?it ! 0)) (tetradeValue (key_bytes ?it) 0)
        = load r (npath (bytes_val (key_bytes ?it)) (2 * sz) 0)"
      using d0 assms(2) by (intro child_slot) simp_all
    ultimately show ?thesis by simp
  qed
  then show ?thesis
    unfolding e key_it_valid[OF assms] by (simp add: key_it_valid[OF assms])
qed

section \<open>Traversal\<close>

text \<open>
  Claim C4, as stated: inserting the keys \<open>-0.0\<close> and \<open>+0.0\<close> (bit patterns
  \<open>0x80000000\<close> and \<open>0\<close> of a \<open>float\<close>) into an empty container gives a container
  holding exactly one element, the two zeros being at equal positions.  The container
  holds two: neither \<open>size()\<close> nor the number of leaf slots with a value is 1, and the
  two radix keys differ.
\<close>

theorem float_zeros_not_one_element:
  "(let m = snd (insert_am 4 ordering_default_float
               (snd (insert_am 4 ordering_default_float arraymap_init (0x80000000, ''n'')))
               (0, ''p''))
    in size_am m \<noteq> 1 \<and> leaf_count (root m) \<noteq> 1
       \<and> ordering_default_apply_float 0x80000000 \<noteq> ordering_default_apply_float 0)"
  by code_simp

text \<open>The two zeros of \<open>float\<close> and \<open>double\<close>, inserted in either order.\<close>

lemma float_zeros_neg_first:
  "(let m = snd (insert_am 4 ordering_default_float
               (snd (insert_am 4 ordering_default_float arraymap_init (0x80000000, ''n'')))
               (0, ''p''))
    in size_am m = 2 \<and> leaf_count (root m) = 2
       \<and> contains 4 ordering_default_float m 0x80000000
       \<and> contains 4 ordering_default_float m 0
       \<and> traverse 4 ordering_default_float m
           = Some [Some (0x80000000, Val ''n''), Some (0, Val ''p'')])"
  by code_simp

lemma float_zeros_pos_first:
  "(let m = snd (insert_am 4 ordering_default_float
               (snd (insert_am 4 ordering_default_float arraymap_init (0, ''p'')))
               (0x80000000, ''n''))
    in size_am m = 2 \<and> leaf_count (root m) = 2
       \<and> contains 4 ordering_default_float m 0x80000000
       \<and> contains 4 ordering_default_float m 0
       \<and> traverse 4 ordering_default_float m
           = Some [Some (0x80000000, Val ''n''), Some (0, Val ''p'')])"
  by code_simp

lemma double_zeros_neg_first:
  "(let m = snd (insert_am 8 ordering_default_double
               (snd (insert_am 8 ordering_default_double arraymap_init (0x8000000000000000, ''n'')))
               (0, ''p''))
    in size_am m = 2 \<and> leaf_count (root m) = 2
       \<and> contains 8 ordering_default_double m 0x8000000000000000
       \<and> contains 8 ordering_default_double m 0
       \<and> traverse 8 ordering_default_double m
           = Some [Some (0x8000000000000000, Val ''n''), Some (0, Val ''p'')])"
  by code_simp

lemma double_zeros_pos_first:
  "(let m = snd (insert_am 8 ordering_default_double
               (snd (insert_am 8 ordering_default_double arraymap_init (0, ''p'')))
               (0x8000000000000000, ''n''))
    in size_am m = 2 \<and> leaf_count (root m) = 2
       \<and> contains 8 ordering_default_double m 0x8000000000000000
       \<and> contains 8 ordering_default_double m 0
       \<and> traverse 8 ordering_default_double m
           = Some [Some (0x8000000000000000, Val ''n''), Some (0, Val ''p'')])"
  by code_simp

lemma zeros_adjacent:
  "ordering_default_apply_float 0x80000000 + 1 = ordering_default_apply_float 0"
  "ordering_default_apply_float 0x80000000 < ordering_default_apply_float 0"
  "ordering_default_apply_double 0x8000000000000000 + 1 = ordering_default_apply_double 0"
  "ordering_default_apply_double 0x8000000000000000 < ordering_default_apply_double 0"
  by code_simp+

text \<open>
  Claim C4, amended: for \<open>float\<close> and \<open>double\<close> keys under \<open>ordering_default\<close>,
  inserting \<open>-0.0\<close> and \<open>+0.0\<close> in either order into an empty container gives a
  container holding exactly two elements: \<open>size()\<close> is 2, the tree has exactly two
  leaf slots with a value, \<open>contains\<close> is true of both zeros, and the traversal from
  \<open>begin()\<close> to \<open>end()\<close> yields \<open>-0.0\<close> with the value inserted for it and then
  \<open>+0.0\<close> with the value inserted for it, and nothing else.  The radix key of \<open>-0.0\<close>
  is the one just below the radix key of \<open>+0.0\<close>, so the two zeros are different,
  adjacent positions of the container's order.
\<close>

theorem float_zeros_two_elements:
  "(let m = snd (insert_am 4 ordering_default_float
               (snd (insert_am 4 ordering_default_float arraymap_init (0x80000000, ''n'')))
               (0, ''p''))
    in size_am m = 2 \<and> leaf_count (root m) = 2
       \<and> contains 4 ordering_default_float m 0x80000000
       \<and> contains 4 ordering_default_float m 0
       \<and> traverse 4 ordering_default_float m
           = Some [Some (0x80000000, Val ''n''), Some (0, Val ''p'')])
   \<and> (let m = snd (insert_am 4 ordering_default_float
               (snd (insert_am 4 ordering_default_float arraymap_init (0, ''p'')))
               (0x80000000, ''n''))
    in size_am m = 2 \<and> leaf_count (root m) = 2
       \<and> contains 4 ordering_default_float m 0x80000000
       \<and> contains 4 ordering_default_float m 0
       \<and> traverse 4 ordering_default_float m
           = Some [Some (0x80000000, Val ''n''), Some (0, Val ''p'')])
   \<and> (let m = snd (insert_am 8 ordering_default_double
               (snd (insert_am 8 ordering_default_double arraymap_init (0x8000000000000000, ''n'')))
               (0, ''p''))
    in size_am m = 2 \<and> leaf_count (root m) = 2
       \<and> contains 8 ordering_default_double m 0x8000000000000000
       \<and> contains 8 ordering_default_double m 0
       \<and> traverse 8 ordering_default_double m
           = Some [Some (0x8000000000000000, Val ''n''), Some (0, Val ''p'')])
   \<and> (let m = snd (insert_am 8 ordering_default_double
               (snd (insert_am 8 ordering_default_double arraymap_init (0, ''p'')))
               (0x8000000000000000, ''n''))
    in size_am m = 2 \<and> leaf_count (root m) = 2
       \<and> contains 8 ordering_default_double m 0x8000000000000000
       \<and> contains 8 ordering_default_double m 0
       \<and> traverse 8 ordering_default_double m
           = Some [Some (0x8000000000000000, Val ''n''), Some (0, Val ''p'')])
   \<and> ordering_default_apply_float 0x80000000 + 1 = ordering_default_apply_float 0
   \<and> ordering_default_apply_float 0x80000000 < ordering_default_apply_float 0
   \<and> ordering_default_apply_double 0x8000000000000000 + 1 = ordering_default_apply_double 0
   \<and> ordering_default_apply_double 0x8000000000000000 < ordering_default_apply_double 0"
  by (intro conjI float_zeros_neg_first float_zeros_pos_first double_zeros_neg_first
      double_zeros_pos_first zeros_adjacent)

section \<open>The operations of the container\<close>

lemma digits_mod:
  "(\<forall>j<n. (a::nat) div 16 ^ j mod 16 = b div 16 ^ j mod 16) \<Longrightarrow> a mod 16 ^ n = b mod 16 ^ n"
proof (induction n)
  case 0 show ?case by simp
next
  case (Suc n)
  have "a mod 16 ^ n = b mod 16 ^ n" using Suc by simp
  moreover have "a div 16 ^ n mod 16 = b div 16 ^ n mod 16" using Suc.prems by simp
  ultimately show ?case
    using mod_mult2_eq[of a "16 ^ n" 16] mod_mult2_eq[of b "16 ^ n" 16]
    by (simp add: mult.commute)
qed

lemma npath_inj:
  assumes "a < 16 ^ n" "b < 16 ^ n" "npath a n 0 = npath b n 0"
  shows "a = b"
proof -
  have "\<forall>j<n. a div 16 ^ j mod 16 = b div 16 ^ j mod 16"
    using assms(3) by (simp add: npath_def)
  then have "a mod 16 ^ n = b mod 16 ^ n" by (rule digits_mod)
  then show ?thesis using assms(1,2) by simp
qed

lemma unat_key_bound:
  assumes "LENGTH('k::len) = 8 * sz"
  shows "unat (key::'k word) < 16 ^ (2 * sz)"
proof -
  have "unat key < 2 ^ LENGTH('k)" by (rule unsigned_less)
  then show ?thesis by (simp add: assms power_mult)
qed

lemma key_path_inj:
  assumes "LENGTH('k::len) = 8 * sz"
  shows "(npath (unat (a::'k word)) (2 * sz) 0 = npath (unat (b::'k word)) (2 * sz) 0) = (a = b)"
  using npath_inj[OF unat_key_bound[OF assms, of a] unat_key_bound[OF assms, of b]]
  by (auto simp: word_unat_eq_iff)

lemma target_valid_currentValue [simp]:
  "target_valid r (it\<lparr>currentValue := x\<rparr>) = target_valid r it"
  by (simp add: target_valid_def)

lemma memset_end_bytes:
  "length bs = sz + 1 \<Longrightarrow> (memset bs 0 sz)[sz := b] = replicate sz 0 @ [b]"
proof -
  assume l: "length bs = sz + 1"
  then have "length (drop sz bs) = 1" by simp
  then obtain x where "drop sz bs = [x]"
    by (cases "drop sz bs") auto
  then show ?thesis by (simp add: memset_def list_update_append)
qed

lemma iterator_key_find:
  assumes "LENGTH('k::len) = 8 * sz" "0 < sz"
  shows "iterator_key sz restore r (key::'k word) False =
         Some (if present sz r (unat key)
               then (key_it sz r key)\<lparr>currentValue :=
                      Some (restore key, load r (npath (unat key) (2 * sz) 0))\<rparr>
               else (key_it sz r key)\<lparr>key_bytes := replicate sz 0 @ [1],
                      depth := MAX_DEPTH sz\<rparr>)"
proof -
  have l: "length (key_bytes (key_it sz r key)) = sz + 1" by (simp add: key_it_def)
  show ?thesis
    unfolding iterator_key_def iterator_base_key_eq[OF assms]
    by (simp add: key_it_valid[OF assms] memset_end_bytes[OF l])
qed

lemma end_it_bytes: "key_bytes (end_it sz :: ('k, 'v) iterator_base) = replicate sz 0 @ [1]"
  by (simp add: end_it_def iterator_root_def iterator_base_root_def Let_def memset_end_bytes)

lemma find_eq_end:
  assumes "LENGTH('k::len) = 8 * sz" "0 < sz"
    "iterator_key sz restore r (key::'k word) False = Some it"
  shows "iterator_eq sz it (end_it sz) = (\<not> present sz r (unat key))"
proof (cases "present sz r (unat key)")
  case True
  then have "key_bytes it = key_to_bytes sz key @ [0]"
    using assms(3) unfolding iterator_key_find[OF assms(1,2)] by (auto simp: key_it_def)
  then show ?thesis using True by (simp add: iterator_eq_def end_it_bytes)
next
  case False
  then have "key_bytes it = replicate sz 0 @ [1]"
    using assms(3) unfolding iterator_key_find[OF assms(1,2)] by auto
  then show ?thesis using False by (simp add: iterator_eq_def end_it_bytes)
qed

lemma find_at_key:
  assumes "LENGTH('k::len) = 8 * sz" "0 < sz" "present sz r (unat (key::'k word))"
  shows "\<exists>it. iterator_key sz restore r key False = Some it \<and> at_key sz restore r it (unat key)"
proof -
  let ?it = "(key_it sz r key)\<lparr>currentValue :=
                      Some (restore key, load r (npath (unat key) (2 * sz) 0))\<rparr>"
  have e: "iterator_key sz restore r key False = Some ?it"
    using assms(3) by (simp add: iterator_key_find[OF assms(1,2)])
  have ok: "it_ok sz (key_it sz r key)" using assms(1) by (rule key_it_ok)
  have tv: "target_valid r (key_it sz r key)" using assms by (simp add: key_it_valid)
  have bv: "bytes_val (key_bytes (key_it sz r key)) = unat key"
    using bytes_val_key[OF assms(1), of key] by (simp add: key_it_def bytes_val_append)
  have "at_key sz restore r ?it (unat key)"
    using ok tv bv assms(3) bytes_to_key_key[OF assms(1), of key "[0]"]
    by (simp add: at_key_def it_ok_def target_valid_def key_it_def)
  with e show ?thesis by blast
qed

lemma leaf_path:
  assumes ok: "it_ok sz it" and d: "depth it = 0" and K: "bytes_val (key_bytes it) = K"
    and "0 < sz"
  shows "stack it ! 0 @ [tetradeValue (key_bytes it) 0] = npath K (2 * sz) 0"
proof -
  have "0 div 2 < length (key_bytes it)" using ok by (simp add: it_ok_def)
  then have "tetradeValue (key_bytes it) 0 = K div 16 ^ 0 mod 16"
    unfolding K[symmetric] by (rule tetradeValue_val)
  moreover have "stack it ! 0 = npath K (2 * sz) (Suc 0)"
    using ok d K assms(4) by (simp add: it_ok_def)
  moreover have "npath K (2 * sz) 0 = npath K (2 * sz) (Suc 0) @ [K div 16 ^ 0 mod 16]"
    using assms(4) by (intro npath_step) simp
  ultimately show ?thesis by simp
qed

lemma erase_elem_del:
  assumes ok: "it_ok sz it" and d: "depth it = 0" and K: "bytes_val (key_bytes it) = K"
    and p: "present sz r K" and t: "trie_ok (2 * sz) r" and sz: "0 < sz"
  shows "\<exists>d. erase_elem sz r it = (True, del (npath K (2 * sz) 0) r, it\<lparr>depth := d\<rparr>)"
proof -
  let ?P = "npath K (2 * sz) 0"
  have leaf: "\<not> is_empty (next_slot (load r (stack it ! 0)) (tetradeValue (key_bytes it) 0))"
    using leaf_present[OF ok d sz, of r] p K by simp
  have path: "stack it ! 0 @ [tetradeValue (key_bytes it) 0] = ?P"
    using ok d K sz by (rule leaf_path)
  have "trie_ok (length ?P) r" using t by simp
  then have vp: "valid_path r ?P"
    using p by (intro valid_path_present npath_digits) (simp_all add: present_def)
  have stk: "\<forall>j<2 * sz. stack it ! j = npath K (2 * sz) (Suc j)"
    using ok d K by (simp add: it_ok_def)
  have f: "fst (erase_elem_loop sz (store r ?P Empty_node) (stack it) 0) = del ?P r"
    using vp stk by (rule erase_loop_path)
  obtain r' d' where l: "erase_elem_loop sz (store r ?P Empty_node) (stack it) 0 = (r', d')"
    by (cases "erase_elem_loop sz (store r ?P Empty_node) (stack it) 0")
  with f have "r' = del ?P r" by simp
  then have "erase_elem sz r it = (True, del ?P r, it\<lparr>depth := d'\<rparr>)"
    using leaf d l by (simp add: erase_elem_def path Let_def)
  then show ?thesis by blast
qed

lemma find_ins:
  assumes "LENGTH('k::len) = 8 * sz" "0 < sz" "trie_ok (2 * sz) r"
  shows "element_fast_find sz (ins (npath (unat (key::'k word)) (2 * sz) 0) v r) (j::'k word)
         = (if j = key then Val v else element_fast_find sz r j)"
proof -
  let ?P = "npath (unat key) (2 * sz) 0" and ?Q = "npath (unat j) (2 * sz) 0"
  have t: "trie_ok (length ?P) r" using assms(3) by simp
  show ?thesis
  proof (cases "j = key")
    case True
    then show ?thesis
      using load_ins_same[OF t npath_digits, of v]
      by (simp add: element_fast_find_path[OF assms(1,2)])
  next
    case False
    then have "?Q \<noteq> ?P" by (simp add: key_path_inj[OF assms(1)])
    then have "load (ins ?P v r) ?Q = load r ?Q"
      using t by (intro load_ins_other npath_digits) simp_all
    then show ?thesis using False by (simp add: element_fast_find_path[OF assms(1,2)])
  qed
qed

lemma find_del:
  assumes "LENGTH('k::len) = 8 * sz" "0 < sz" "trie_ok (2 * sz) r"
  shows "element_fast_find sz (del (npath (unat (key::'k word)) (2 * sz) 0) r) (j::'k word)
         = (if j = key then Empty_node else element_fast_find sz r j)"
proof -
  let ?P = "npath (unat key) (2 * sz) 0" and ?Q = "npath (unat j) (2 * sz) 0"
  have t: "trie_ok (length ?P) r" using assms(3) by simp
  show ?thesis
  proof (cases "j = key")
    case True
    then show ?thesis
      using load_del_same[OF t npath_digits]
      by (simp add: element_fast_find_path[OF assms(1,2)])
  next
    case False
    then have "?Q \<noteq> ?P" by (simp add: key_path_inj[OF assms(1)])
    then have "load (del ?P r) ?Q = load r ?Q"
      using t by (intro load_del_other npath_digits) simp_all
    then show ?thesis using False by (simp add: element_fast_find_path[OF assms(1,2)])
  qed
qed

lemma contains_present:
  assumes "LENGTH('k::len) = 8 * sz" "0 < sz"
  shows "contains sz ord m (k::'k word) = present sz (root m) (unat (Ordering_apply ord k))"
  by (simp add: contains_def element_fast_find_path[OF assms] present_def)

lemma try_emplace_insert: "try_emplace sz ord m k v = insert_am sz ord m (k, v)"
  by (simp add: try_emplace_def insert_am_def)

lemma insert_am_present:
  assumes "contains sz ord m k"
  shows "snd (fst (insert_am sz ord m (k, v))) = False" "snd (insert_am sz ord m (k, v)) = m"
  using assms by (simp_all add: insert_am_def contains_def Let_def)

lemma insert_am_absent:
  assumes "LENGTH('k::len) = 8 * sz" "0 < sz" "trie_ok (2 * sz) (root m)"
    "\<not> contains sz ord m (k::'k word)"
  shows "snd (fst (insert_am sz ord m (k, v))) = True"
    "snd (insert_am sz ord m (k, v))
     = m\<lparr>root := ins (npath (unat (Ordering_apply ord k)) (2 * sz) 0) v (root m),
         element_count := element_count m + 1\<rparr>"
  using assms(4) element_fast_add_ins[OF assms(1-3), of "Ordering_apply ord k" v]
  by (simp_all add: insert_am_def contains_def Let_def)

lemma operator_index_eq:
  assumes "LENGTH('k::len) = 8 * sz" "0 < sz" "trie_ok (2 * sz) (root m)"
  shows "snd (operator_index sz ord dflt m (k::'k word))
     = (if contains sz ord m k then m
        else m\<lparr>root := ins (npath (unat (Ordering_apply ord k)) (2 * sz) 0) dflt (root m),
               element_count := element_count m + 1\<rparr>)"
  using element_fast_add_ins[OF assms(1-3), of "Ordering_apply ord k" dflt]
  by (simp add: operator_index_def contains_def Let_def)

lemma erase_eq:
  assumes "LENGTH('k::len) = 8 * sz" "0 < sz" "trie_ok (2 * sz) (root m)"
  shows "erase sz ord m (k::'k word)
     = (if contains sz ord m k
        then Some (1, m\<lparr>root := del (npath (unat (Ordering_apply ord k)) (2 * sz) 0) (root m),
                         element_count := element_count m - 1\<rparr>)
        else Some (0, m))"
proof (cases "contains sz ord m k")
  case True
  then have p: "present sz (root m) (unat (Ordering_apply ord k))"
    by (simp add: contains_present[OF assms(1,2)])
  from find_at_key[OF assms(1,2) p] obtain it where
    it: "iterator_key sz (Ordering_restore ord) (root m) (Ordering_apply ord k) False = Some it"
    and a: "at_key sz (Ordering_restore ord) (root m) it (unat (Ordering_apply ord k))"
    by blast
  have ne: "\<not> iterator_eq sz it (end_it sz)"
    using find_eq_end[OF assms(1,2) it] p by simp
  have "it_ok sz it" "depth it = 0" "bytes_val (key_bytes it) = unat (Ordering_apply ord k)"
    using a by (simp_all add: at_key_def)
  from erase_elem_del[OF this p assms(3,2)] obtain d where
    "erase_elem sz (root m) it
     = (True, del (npath (unat (Ordering_apply ord k)) (2 * sz) 0) (root m), it\<lparr>depth := d\<rparr>)"
    by blast
  then show ?thesis using True it ne by (simp add: erase_def)
next
  case False
  then have p: "\<not> present sz (root m) (unat (Ordering_apply ord k))"
    by (simp add: contains_present[OF assms(1,2)])
  obtain it where
    it: "iterator_key sz (Ordering_restore ord) (root m) (Ordering_apply ord k) False = Some it"
    by (simp add: iterator_key_find[OF assms(1,2)])
  have "iterator_eq sz it (end_it sz)"
    using find_eq_end[OF assms(1,2) it] p by simp
  then show ?thesis using False it by (simp add: erase_def)
qed

text \<open>
  Claim C7.  In every container state whose tree has the shape that the operations of
  the container keep, and for every key \<open>k\<close> and value \<open>v\<close>, each of \<open>insert\<close>, \<open>emplace\<close>
  and \<open>try_emplace\<close> with key \<open>k\<close> does the following.  When \<open>k\<close> is present, the returned
  flag is false and the container is left as it was, so the mapped value of \<open>k\<close>, the
  element count and every other element are unchanged.  When \<open>k\<close> is absent, the
  returned flag is true and afterwards \<open>k\<close> is mapped to \<open>v\<close>, the slot of every other
  radix key holds what it held before, and the element count is one more.
\<close>

theorem insert_only_if_absent:
  fixes m :: "'v arraymap" and k :: "'k::len word"
  assumes "LENGTH('k) = 8 * sz" "0 < sz" "trie_ok (MAX_DEPTH sz) (root m)"
    and "res \<in> {insert_am sz ord m (k, v), emplace sz ord m (k, v), try_emplace sz ord m k v}"
  shows "(contains sz ord m k \<longrightarrow> snd (fst res) = False \<and> snd res = m)
       \<and> (\<not> contains sz ord m k \<longrightarrow>
            snd (fst res) = True
            \<and> element_fast_find sz (root (snd res)) (Ordering_apply ord k) = Val v
            \<and> (\<forall>j. j \<noteq> Ordering_apply ord k \<longrightarrow>
                  element_fast_find sz (root (snd res)) j = element_fast_find sz (root m) j)
            \<and> element_count (snd res) = element_count m + 1
            \<and> trie_ok (MAX_DEPTH sz) (root (snd res)))"
proof -
  have res: "res = insert_am sz ord m (k, v)"
    using assms(4) by (auto simp: emplace_def try_emplace_insert)
  have t: "trie_ok (2 * sz) (root m)" using assms(3) by (simp add: MAX_DEPTH_def mult.commute)
  let ?P = "npath (unat (Ordering_apply ord k)) (2 * sz) 0"
  have "trie_ok (length ?P) (root m)" using t by simp
  then have "trie_ok (length ?P) (ins ?P v (root m))"
    by (intro trie_ok_ins npath_digits)
  then have t': "trie_ok (MAX_DEPTH sz) (ins ?P v (root m))"
    by (simp add: MAX_DEPTH_def mult.commute)
  show ?thesis
    unfolding res
    using insert_am_present[of sz ord m k v] insert_am_absent[OF assms(1,2) t, of ord k v]
      find_ins[OF assms(1,2) t, of "Ordering_apply ord k" v] t'
    by auto
qed

text \<open>The theorem at a container of 8-bit keys that holds the key 5.\<close>

theorem insert_only_if_absent_witness:
  "trie_ok (MAX_DEPTH 1)
     (root (snd (insert_am 1 ordering_default_int8 arraymap_init (5, ''a''))))
   \<and> contains 1 ordering_default_int8
       (snd (insert_am 1 ordering_default_int8 arraymap_init (5, ''a''))) 5
   \<and> snd (fst (insert_am 1 ordering_default_int8
       (snd (insert_am 1 ordering_default_int8 arraymap_init (5, ''a''))) (5, ''b''))) = False
   \<and> snd (insert_am 1 ordering_default_int8
       (snd (insert_am 1 ordering_default_int8 arraymap_init (5, ''a''))) (5, ''b''))
     = snd (insert_am 1 ordering_default_int8 arraymap_init (5, ''a''))
   \<and> \<not> contains 1 ordering_default_int8
       (snd (insert_am 1 ordering_default_int8 arraymap_init (5, ''a''))) 7
   \<and> snd (fst (try_emplace 1 ordering_default_int8
       (snd (insert_am 1 ordering_default_int8 arraymap_init (5, ''a''))) 7 ''c'')) = True
   \<and> element_fast_find 1 (root (snd (try_emplace 1 ordering_default_int8
       (snd (insert_am 1 ordering_default_int8 arraymap_init (5, ''a''))) 7 ''c'')))
       (Ordering_apply ordering_default_int8 7) = Val ''c''"
proof -
  let ?m = "snd (insert_am 1 ordering_default_int8 arraymap_init (5, ''a''))"
  have t: "trie_ok (MAX_DEPTH 1) (root ?m)" by code_simp
  have c5: "contains 1 ordering_default_int8 ?m 5" by code_simp
  have c7: "\<not> contains 1 ordering_default_int8 ?m 7" by code_simp
  have L: "LENGTH(8) = 8 * 1" by simp
  have a: "insert_am 1 ordering_default_int8 ?m (5, ''b'')
      \<in> {insert_am 1 ordering_default_int8 ?m (5, ''b''),
         emplace 1 ordering_default_int8 ?m (5, ''b''),
         try_emplace 1 ordering_default_int8 ?m 5 ''b''}" by simp
  have b: "try_emplace 1 ordering_default_int8 ?m 7 ''c''
      \<in> {insert_am 1 ordering_default_int8 ?m (7, ''c''),
         emplace 1 ordering_default_int8 ?m (7, ''c''),
         try_emplace 1 ordering_default_int8 ?m 7 ''c''}" by simp
  show ?thesis
    using insert_only_if_absent[OF L zero_less_one t a] insert_only_if_absent[OF L zero_less_one t b]
      t c5 c7
    by blast
qed

text \<open>
  Claim C8.  In every container state whose tree has the shape that the operations of
  the container keep, and for every key \<open>k\<close>: when \<open>k\<close> is present, \<open>erase(k)\<close> returns 1
  and afterwards \<open>k\<close> is absent, the slot of every other radix key holds what it held
  before and the element count is one less; when \<open>k\<close> is absent, \<open>erase(k)\<close> returns 0 and
  the container is left as it was.
\<close>

theorem erase_key_reports_presence:
  fixes m :: "'v arraymap" and k :: "'k::len word"
  assumes "LENGTH('k) = 8 * sz" "0 < sz" "trie_ok (MAX_DEPTH sz) (root m)"
  shows "(contains sz ord m k \<longrightarrow>
            (\<exists>m'. erase sz ord m k = Some (1, m')
               \<and> \<not> contains sz ord m' k
               \<and> (\<forall>j. j \<noteq> Ordering_apply ord k \<longrightarrow>
                     element_fast_find sz (root m') j = element_fast_find sz (root m) j)
               \<and> element_count m' = element_count m - 1
               \<and> trie_ok (MAX_DEPTH sz) (root m')))
       \<and> (\<not> contains sz ord m k \<longrightarrow> erase sz ord m k = Some (0, m))"
proof -
  have t: "trie_ok (2 * sz) (root m)" using assms(3) by (simp add: MAX_DEPTH_def mult.commute)
  let ?P = "npath (unat (Ordering_apply ord k)) (2 * sz) 0"
  have "trie_ok (length ?P) (root m)" using t by simp
  then have "trie_ok (length ?P) (del ?P (root m))" by (rule trie_ok_del)
  then have t': "trie_ok (MAX_DEPTH sz) (del ?P (root m))"
    by (simp add: MAX_DEPTH_def mult.commute)
  show ?thesis
    using erase_eq[OF assms(1,2) t, of ord k]
      find_del[OF assms(1,2) t, of "Ordering_apply ord k"] t'
    by (auto simp: contains_def)
qed

text \<open>The theorem at a container of 8-bit keys that holds the key 5.\<close>

theorem erase_key_reports_presence_witness:
  "trie_ok (MAX_DEPTH 1)
     (root (snd (insert_am 1 ordering_default_int8 arraymap_init (5, ''a''))))
   \<and> contains 1 ordering_default_int8
       (snd (insert_am 1 ordering_default_int8 arraymap_init (5, ''a''))) 5
   \<and> (\<exists>m'. erase 1 ordering_default_int8
          (snd (insert_am 1 ordering_default_int8 arraymap_init (5, ''a''))) 5 = Some (1, m')
        \<and> \<not> contains 1 ordering_default_int8 m' 5)
   \<and> \<not> contains 1 ordering_default_int8
       (snd (insert_am 1 ordering_default_int8 arraymap_init (5, ''a''))) 7
   \<and> erase 1 ordering_default_int8
       (snd (insert_am 1 ordering_default_int8 arraymap_init (5, ''a''))) 7
     = Some (0, snd (insert_am 1 ordering_default_int8 arraymap_init (5, ''a'')))"
proof -
  let ?m = "snd (insert_am 1 ordering_default_int8 arraymap_init (5, ''a''))"
  have t: "trie_ok (MAX_DEPTH 1) (root ?m)" by code_simp
  have c5: "contains 1 ordering_default_int8 ?m 5" by code_simp
  have c7: "\<not> contains 1 ordering_default_int8 ?m 7" by code_simp
  have L: "LENGTH(8) = 8 * 1" by simp
  show ?thesis
    using erase_key_reports_presence[OF L zero_less_one t, of ordering_default_int8 5]
      erase_key_reports_presence[OF L zero_less_one t, of ordering_default_int8 7]
      t c5 c7
    by blast
qed

lemma inv_init: "arraymap_inv sz arraymap_init"
  by (simp add: arraymap_inv_def arraymap_init_def)

lemma inv_clear: "arraymap_inv sz (clear m)"
  by (simp add: arraymap_inv_def clear_def)

lemma inv_ins:
  assumes "arraymap_inv sz m" "\<not> present sz (root m) K"
  shows "arraymap_inv sz (m\<lparr>root := ins (npath K (2 * sz) 0) v (root m),
                             element_count := element_count m + 1\<rparr>)"
proof -
  let ?P = "npath K (2 * sz) 0"
  have t: "trie_ok (length ?P) (root m)"
    using assms(1) by (simp add: arraymap_inv_def MAX_DEPTH_def mult.commute)
  have "trie_ok (length ?P) (ins ?P v (root m))" using t by (intro trie_ok_ins npath_digits)
  moreover have "no_empty_node (ins ?P v (root m))"
    using t assms(1) by (intro no_empty_ins npath_digits) (simp_all add: arraymap_inv_def)
  moreover have "leaf_count (ins ?P v (root m)) = Suc (leaf_count (root m))"
    using t assms(2) by (intro leaf_count_ins npath_digits) (simp_all add: present_def)
  ultimately show ?thesis
    using assms(1) by (simp add: arraymap_inv_def MAX_DEPTH_def mult.commute)
qed

lemma inv_del:
  assumes "arraymap_inv sz m" "present sz (root m) K"
  shows "arraymap_inv sz (m\<lparr>root := del (npath K (2 * sz) 0) (root m),
                             element_count := element_count m - 1\<rparr>)"
proof -
  let ?P = "npath K (2 * sz) 0"
  have t: "trie_ok (length ?P) (root m)"
    using assms(1) by (simp add: arraymap_inv_def MAX_DEPTH_def mult.commute)
  have "trie_ok (length ?P) (del ?P (root m))" using t by (rule trie_ok_del)
  moreover have "no_empty_node (del ?P (root m))"
    using t assms(1) by (intro no_empty_del) (simp_all add: arraymap_inv_def)
  moreover have "Suc (leaf_count (del ?P (root m))) = leaf_count (root m)"
    using t assms(2) by (intro leaf_count_del npath_digits) (simp_all add: present_def)
  then have "(of_nat (leaf_count (root m)) :: 64 word) = of_nat (Suc (leaf_count (del ?P (root m))))"
    by (rule arg_cong[OF sym])
  then have "(of_nat (leaf_count (root m)) :: 64 word) - 1 = of_nat (leaf_count (del ?P (root m)))"
    by simp
  ultimately show ?thesis
    using assms(1) by (simp add: arraymap_inv_def MAX_DEPTH_def mult.commute)
qed

lemma inv_insert:
  assumes "LENGTH('k::len) = 8 * sz" "0 < sz" "arraymap_inv sz m"
  shows "arraymap_inv sz (snd (insert_am sz ord m ((k::'k word), v)))"
proof (cases "contains sz ord m k")
  case True
  then show ?thesis using assms(3) by (simp add: insert_am_present)
next
  case False
  have t: "trie_ok (2 * sz) (root m)"
    using assms(3) by (simp add: arraymap_inv_def MAX_DEPTH_def mult.commute)
  have "\<not> present sz (root m) (unat (Ordering_apply ord k))"
    using False by (simp add: contains_present[OF assms(1,2)])
  with assms(3) show ?thesis
    unfolding insert_am_absent(2)[OF assms(1,2) t False] by (rule inv_ins)
qed

lemma inv_operator_index:
  assumes "LENGTH('k::len) = 8 * sz" "0 < sz" "arraymap_inv sz m"
  shows "arraymap_inv sz (snd (operator_index sz ord dflt m (k::'k word)))"
proof (cases "contains sz ord m k")
  case True
  have t: "trie_ok (2 * sz) (root m)"
    using assms(3) by (simp add: arraymap_inv_def MAX_DEPTH_def mult.commute)
  show ?thesis using True assms(3) by (simp add: operator_index_eq[OF assms(1,2) t])
next
  case False
  have t: "trie_ok (2 * sz) (root m)"
    using assms(3) by (simp add: arraymap_inv_def MAX_DEPTH_def mult.commute)
  have "\<not> present sz (root m) (unat (Ordering_apply ord k))"
    using False by (simp add: contains_present[OF assms(1,2)])
  with assms(3) have "arraymap_inv sz
      (m\<lparr>root := ins (npath (unat (Ordering_apply ord k)) (2 * sz) 0) dflt (root m),
         element_count := element_count m + 1\<rparr>)"
    by (rule inv_ins)
  then show ?thesis using False by (simp add: operator_index_eq[OF assms(1,2) t])
qed

lemma inv_erase:
  assumes "LENGTH('k::len) = 8 * sz" "0 < sz" "arraymap_inv sz m"
    "erase sz ord m (k::'k word) = Some (n, m')"
  shows "arraymap_inv sz m'"
proof (cases "contains sz ord m k")
  case True
  have t: "trie_ok (2 * sz) (root m)"
    using assms(3) by (simp add: arraymap_inv_def MAX_DEPTH_def mult.commute)
  have "present sz (root m) (unat (Ordering_apply ord k))"
    using True by (simp add: contains_present[OF assms(1,2)])
  with assms(3) have "arraymap_inv sz
      (m\<lparr>root := del (npath (unat (Ordering_apply ord k)) (2 * sz) 0) (root m),
         element_count := element_count m - 1\<rparr>)"
    by (rule inv_del)
  then show ?thesis using True assms(4) by (simp add: erase_eq[OF assms(1,2) t])
next
  case False
  have t: "trie_ok (2 * sz) (root m)"
    using assms(3) by (simp add: arraymap_inv_def MAX_DEPTH_def mult.commute)
  show ?thesis using False assms(3,4) by (simp add: erase_eq[OF assms(1,2) t])
qed

lemma inv_erase_pos:
  assumes "0 < sz" "arraymap_inv sz m" "it_ok sz pos" "target_valid (root m) pos"
    "erase_pos sz ord m pos = Some (pos', m')"
  shows "arraymap_inv sz m'"
proof -
  let ?j = "bytes_val (key_bytes pos)"
  have t: "trie_ok (2 * sz) (root m)"
    using assms(2) by (simp add: arraymap_inv_def MAX_DEPTH_def mult.commute)
  have d: "depth pos = 0" using assms(4) by (simp add: target_valid_def)
  have p: "present sz (root m) ?j"
    using leaf_present[OF assms(3) d assms(1), of "root m"] assms(4)
    by (simp add: target_valid_def)
  from erase_elem_del[OF assms(3) d refl p t assms(1)] obtain d' where
    e: "erase_elem sz (root m) pos
        = (True, del (npath ?j (2 * sz) 0) (root m), pos\<lparr>depth := d'\<rparr>)"
    by blast
  have "m' = m\<lparr>root := del (npath ?j (2 * sz) 0) (root m),
                 element_count := element_count m - 1\<rparr>"
    using assms(5) unfolding erase_pos_def e by (auto simp: Let_def split: option.splits)
  then show ?thesis using inv_del[OF assms(2) p] by simp
qed

lemma reachable_inv:
  assumes "LENGTH('k::len) = 8 * sz" "0 < sz" "reachable sz (ord::'k word ordering) m"
  shows "arraymap_inv sz m"
  using assms(3)
proof (induction rule: reachable.induct)
  case reachable_init show ?case by (rule inv_init)
next
  case (reachable_insert m kv)
  then show ?case using inv_insert[OF assms(1,2), of m ord "fst kv" "snd kv"] by simp
next
  case (reachable_emplace m kv)
  then show ?case using inv_insert[OF assms(1,2), of m ord "fst kv" "snd kv"]
    by (simp add: emplace_def)
next
  case (reachable_try_emplace m k v)
  then show ?case using inv_insert[OF assms(1,2), of m ord k v] by (simp add: try_emplace_insert)
next
  case (reachable_operator_index m dflt k)
  then show ?case by (intro inv_operator_index[OF assms(1,2)])
next
  case (reachable_erase m k n m')
  then show ?case using inv_erase[OF assms(1,2)] by blast
next
  case (reachable_erase_pos m pos pos' m')
  then show ?case using inv_erase_pos[OF assms(2)] by blast
next
  case (reachable_clear m) show ?case by (rule inv_clear)
qed

lemma leaf_count_le: "trie_ok d t \<Longrightarrow> leaf_count t \<le> 16 ^ d"
proof (induction d arbitrary: t)
  case 0 then show ?case by (cases t) simp_all
next
  case (Suc d)
  show ?case
  proof (cases t)
    case Empty_node then show ?thesis by simp
  next
    case (Val v) then show ?thesis using Suc.prems by simp
  next
    case (Next cs)
    then have l: "length cs = 16" and a: "\<forall>c\<in>set cs. trie_ok d c" using Suc.prems by simp_all
    have "sum_list (map leaf_count cs) \<le> sum_list (map (\<lambda>c. 16 ^ d) cs)"
      using a Suc.IH by (intro sum_list_mono) simp
    also have "\<dots> = 16 * 16 ^ d" using l by (simp add: sum_list_triv)
    finally show ?thesis using Next by simp
  qed
qed

text \<open>
  Claim C5.  In every state of a container, that is, after every completed \<open>insert\<close>,
  \<open>emplace\<close>, \<open>try_emplace\<close>, \<open>operator[]\<close>, \<open>erase\<close> by key, \<open>erase\<close> by iterator and
  \<open>clear\<close> from a state of the container, \<open>element_count\<close> is the number of leaf slots
  under \<open>root\<close> that hold a value, and every array under \<open>root\<close> has a slot that is not
  empty.  \<open>element_count\<close> is a 64-bit counter; the number of leaf slots is at most
  \<open>16 ^ MAX_DEPTH\<close>, so for keys of fewer than 8 bytes the counter is that number itself.
\<close>

theorem element_count_and_nodes:
  fixes m :: "'v arraymap" and ord :: "'k::len word ordering"
  assumes "LENGTH('k) = 8 * sz" "0 < sz" "reachable sz ord m"
  shows "element_count m = of_nat (leaf_count (root m))
       \<and> (sz < 8 \<longrightarrow> unat (element_count m) = leaf_count (root m))
       \<and> no_empty_node (root m)"
proof -
  have inv: "arraymap_inv sz m" using assms by (rule reachable_inv)
  then have c: "element_count m = of_nat (leaf_count (root m))"
    and n: "no_empty_node (root m)" and t: "trie_ok (MAX_DEPTH sz) (root m)"
    by (simp_all add: arraymap_inv_def)
  have "unat (element_count m) = leaf_count (root m)" if "sz < 8"
  proof -
    have "leaf_count (root m) \<le> 16 ^ MAX_DEPTH sz" using t by (rule leaf_count_le)
    also have "\<dots> = 2 ^ (8 * sz)"
    proof -
      have "(16::nat) ^ (sz * 2) = (2 ^ 4) ^ (sz * 2)" by simp
      also have "\<dots> = 2 ^ (4 * (sz * 2))" by (rule power_mult[symmetric])
      finally show ?thesis by (simp add: MAX_DEPTH_def)
    qed
    also have "\<dots> < (2::nat) ^ 64" using that by (intro power_strict_increasing) simp_all
    finally have "leaf_count (root m) < 2 ^ 64" .
    then show ?thesis unfolding c by (simp add: unat_of_nat)
  qed
  with c n show ?thesis by blast
qed

text \<open>
  The theorem at the container of 8-bit keys made by inserting the keys 5 and 7 and
  erasing 5.
\<close>

theorem element_count_and_nodes_witness:
  "reachable 1 ordering_default_int8
     (snd (the (erase 1 ordering_default_int8
        (snd (insert_am 1 ordering_default_int8
           (snd (insert_am 1 ordering_default_int8 arraymap_init (5, ''a''))) (7, ''b''))) 5)))
   \<and> unat (element_count
     (snd (the (erase 1 ordering_default_int8
        (snd (insert_am 1 ordering_default_int8
           (snd (insert_am 1 ordering_default_int8 arraymap_init (5, ''a''))) (7, ''b''))) 5))))
     = leaf_count (root
     (snd (the (erase 1 ordering_default_int8
        (snd (insert_am 1 ordering_default_int8
           (snd (insert_am 1 ordering_default_int8 arraymap_init (5, ''a''))) (7, ''b''))) 5))))
   \<and> leaf_count (root
     (snd (the (erase 1 ordering_default_int8
        (snd (insert_am 1 ordering_default_int8
           (snd (insert_am 1 ordering_default_int8 arraymap_init (5, ''a''))) (7, ''b''))) 5))))
     = 1"
proof -
  let ?m2 = "snd (insert_am 1 ordering_default_int8
           (snd (insert_am 1 ordering_default_int8 arraymap_init (5, ''a''))) (7, ''b''))"
  let ?m3 = "snd (the (erase 1 ordering_default_int8 ?m2 5))"
  have e: "erase 1 ordering_default_int8 ?m2 5 = Some (1, ?m3)" by code_simp
  have r2: "reachable 1 ordering_default_int8 ?m2"
    by (intro reachable_insert reachable_init)
  have r3: "reachable 1 ordering_default_int8 ?m3"
    using r2 e by (rule reachable_erase)
  have L: "LENGTH(8) = 8 * 1" by simp
  have l: "leaf_count (root ?m3) = 1" by code_simp
  show ?thesis
    using element_count_and_nodes[OF L zero_less_one r3] r3 l by simp
qed

section \<open>The backward search\<close>

lemma unat_byte_sub1: "unat ((b::byte) - 1) = (unat b + 255) mod 256"
proof -
  have "b - 1 = b + 255" by simp
  then show ?thesis by (simp only: unat_byte_add) simp
qed

lemma unat_byte_sub16: "unat ((b::byte) - 16) = (unat b + 240) mod 256"
proof -
  have "b - 16 = b + 240" by simp
  then show ?thesis by (simp only: unat_byte_add) simp
qed

lemma byte_eq_255_iff: "((b::byte) = 0xFF) = (unat b = 255)"
  by (simp add: word_unat_eq_iff)

lemma top_byte_zero:
  assumes "length bs = sz + 1" "bs ! sz = 0"
  shows "bytes_val bs < 256 ^ sz"
proof -
  have "bytes_val bs div 256 ^ sz mod 256 = 0"
    using bytes_val_nth[of sz bs] assms by simp
  moreover have "bytes_val bs div 256 ^ sz < 256"
    using bytes_val_bound[of bs] assms(1) by (simp add: less_mult_imp_div_less mult.commute)
  ultimately have "bytes_val bs div 256 ^ sz = 0" by simp
  then show ?thesis by (simp add: div_eq_0_iff)
qed

lemma ones_extend:
  assumes "(y::nat) mod B = B - 1" "y div B mod 16 ^ r = 16 ^ r - 1" "0 < B"
  shows "y mod (B * 16 ^ r) = B * 16 ^ r - 1"
proof -
  have "y mod (B * 16 ^ r) = B * (16 ^ r - 1) + (B - 1)"
    using assms(1,2) mod_mult2_eq[of y B "16 ^ r"] by simp
  also have "\<dots> = B * 16 ^ r - 1"
  proof -
    have "B * (16 ^ r - 1) + B = B * 16 ^ r"
      by (metis One_nat_def Suc_pred' mult_Suc_right add.commute zero_less_numeral zero_less_power)
    then show ?thesis using assms(3) by linarith
  qed
  finally show ?thesis .
qed

lemma decrQuartet_spec:
  assumes "length bs = sz + 1" "q \<le> 2 * sz"
  shows "\<exists>bs' r. decrQuartet sz bs q = (bs', r) \<and> length bs' = sz + 1
           \<and> (16 ^ q \<le> bytes_val bs \<longrightarrow>
                 bytes_val bs' + 16 ^ q = bytes_val bs
                 \<and> bytes_val bs' div 16 ^ q mod 16 ^ r = 16 ^ r - 1
                 \<and> bytes_val bs' div 16 ^ (q + r) mod 16 \<noteq> 15)
           \<and> (bytes_val bs < 16 ^ q \<longrightarrow> q + r = 2 * sz + 2 \<and> bs' ! sz = 0xFF)"
  using assms
proof (induction "2 * sz + 2 - q" arbitrary: bs q rule: less_induct)
  case less
  define i where "i = q div 2"
  define T where "T = bytes_val bs"
  define b where "b = unat (bs ! i)"
  have i: "i < length bs" using less.prems by (simp add: i_def)
  have isz: "i \<le> sz" using less.prems by (simp add: i_def)
  have nguard: "\<not> q > MAX_DEPTH sz" using less.prems by (simp add: MAX_DEPTH_def)
  have b256: "b < 256" unfolding b_def by (rule unat_byte_lt)
  have Tge: "b * 256 ^ i \<le> T" unfolding b_def T_def by (rule byte_val_le[OF i])
  show ?case
  proof (cases "even q")
    case True
    then have q2: "q = 2 * i" by (simp add: i_def)
    have p16: "(16::nat) ^ q = 256 ^ i" by (simp add: q2 power_mult)
    define bs1 where "bs1 = bs[i := bs ! i - 1]"
    have len1: "length bs1 = sz + 1" using less.prems by (simp add: bs1_def)
    have i1: "i < length bs1" using i by (simp add: bs1_def)
    have u1: "unat (bs1 ! i) = (b + 255) mod 256"
      using i by (simp add: bs1_def b_def unat_byte_sub1)
    have T1: "bytes_val bs1 + b * 256 ^ i = T + ((b + 255) mod 256) * 256 ^ i"
      using bytes_val_update[OF i, of "bs ! i - 1"] u1 i by (simp add: bs1_def b_def T_def)
    show ?thesis
    proof (cases "b = 0")
      case b0: True
      have u1': "unat (bs1 ! i) = 255" using u1 b0 by simp
      have ff: "bs1 ! i = 0xFF" using u1' by (simp add: byte_eq_255_iff)
      have T1': "bytes_val bs1 = T + 255 * 256 ^ i" using T1 b0 by simp
      have step: "decrQuartet sz bs q =
          (case decrQuartet sz bs1 (q + 2) of (bytes, r) \<Rightarrow> (bytes, 2 + r))"
        using nguard True ff
        by (subst decrQuartet.simps) (simp add: Let_def bs1_def i_def)
      show ?thesis
      proof (cases "i = sz")
        case top: True
        have "decrQuartet sz bs1 (q + 2) = (bs1, 0)"
          by (subst decrQuartet.simps) (simp add: MAX_DEPTH_def q2 top)
        then have res: "decrQuartet sz bs q = (bs1, 2)" using step by simp
        have "bs ! sz = 0" using b0 top by (simp add: b_def byte_eq_0_iff)
        then have "T < 256 ^ sz" unfolding T_def using less.prems(1) by (intro top_byte_zero)
        then have "\<not> 16 ^ q \<le> T" using p16 top by simp
        then show ?thesis using res len1 ff top q2 by (simp add: T_def)
      next
        case False
        then have isz': "i < sz" using isz by simp
        have "\<exists>bs' r. decrQuartet sz bs1 (q + 2) = (bs', r) \<and> length bs' = sz + 1
           \<and> (16 ^ (q + 2) \<le> bytes_val bs1 \<longrightarrow>
                 bytes_val bs' + 16 ^ (q + 2) = bytes_val bs1
                 \<and> bytes_val bs' div 16 ^ (q + 2) mod 16 ^ r = 16 ^ r - 1
                 \<and> bytes_val bs' div 16 ^ (q + 2 + r) mod 16 \<noteq> 15)
           \<and> (bytes_val bs1 < 16 ^ (q + 2) \<longrightarrow> q + 2 + r = 2 * sz + 2 \<and> bs' ! sz = 0xFF)"
        proof (rule less.hyps)
          show "2 * sz + 2 - (q + 2) < 2 * sz + 2 - q" using less.prems by simp
          show "length bs1 = sz + 1" by (rule len1)
          show "q + 2 \<le> 2 * sz" using isz' q2 by simp
        qed
        then obtain bs' r where rec: "decrQuartet sz bs1 (q + 2) = (bs', r)"
          and len': "length bs' = sz + 1"
          and A: "16 ^ (q + 2) \<le> bytes_val bs1 \<longrightarrow>
                 bytes_val bs' + 16 ^ (q + 2) = bytes_val bs1
                 \<and> bytes_val bs' div 16 ^ (q + 2) mod 16 ^ r = 16 ^ r - 1
                 \<and> bytes_val bs' div 16 ^ (q + 2 + r) mod 16 \<noteq> 15"
          and B: "bytes_val bs1 < 16 ^ (q + 2) \<longrightarrow> q + 2 + r = 2 * sz + 2 \<and> bs' ! sz = 0xFF"
          by (elim exE conjE)
        have res: "decrQuartet sz bs q = (bs', 2 + r)" using step rec by simp
        have p2: "(16::nat) ^ (q + 2) = 256 * 256 ^ i" by (simp add: power_add p16)
        have up: "bytes_val bs' + 16 ^ q = T
                 \<and> bytes_val bs' div 16 ^ q mod 16 ^ (2 + r) = 16 ^ (2 + r) - 1
                 \<and> bytes_val bs' div 16 ^ (q + (2 + r)) mod 16 \<noteq> 15" if "16 ^ q \<le> T"
        proof -
          have "256 ^ i + 255 * 256 ^ i \<le> T + 255 * 256 ^ i" using that p16 by simp
          then have ge: "16 ^ (q + 2) \<le> bytes_val bs1" unfolding T1' p2 by simp
          from A ge have val': "bytes_val bs' + 16 ^ (q + 2) = bytes_val bs1"
            and r1: "bytes_val bs' div 16 ^ (q + 2) mod 16 ^ r = 16 ^ r - 1"
            and r2: "bytes_val bs' div 16 ^ (q + 2 + r) mod 16 \<noteq> 15" by simp_all
          have val: "bytes_val bs' + 16 ^ q = T"
            using val' T1' by (simp add: p2 p16)
          define y where "y = bytes_val bs' div 16 ^ q"
          have "y mod 256 = (bytes_val bs' + 256 ^ Suc i) div 256 ^ i mod 256"
            unfolding y_def p16 by (simp only: add_pow_div_mod)
          also have "\<dots> = bytes_val bs1 div 256 ^ i mod 256"
          proof -
            have "bytes_val bs' + 256 ^ Suc i = bytes_val bs1" using val' unfolding p2 by simp
            then show ?thesis by (simp only:)
          qed
          also have "\<dots> = 255"
            using bytes_val_nth[OF i1] u1' by simp
          finally have y0: "y mod 256 = 256 - 1" by simp
          have y1: "y div 256 mod 16 ^ r = 16 ^ r - 1"
            using r1 div_pow_add[of "bytes_val bs'" q 2] by (simp add: y_def)
          have "y mod (256 * 16 ^ r) = 256 * 16 ^ r - 1"
            using y0 y1 by (rule ones_extend) simp
          then have R1: "bytes_val bs' div 16 ^ q mod 16 ^ (2 + r) = 16 ^ (2 + r) - 1"
            by (simp add: y_def power_add)
          have R2: "bytes_val bs' div 16 ^ (q + (2 + r)) mod 16 \<noteq> 15"
            using r2 by (simp add: add.assoc)
          show ?thesis using val R1 R2 by simp
        qed
        have down: "q + (2 + r) = 2 * sz + 2 \<and> bs' ! sz = 0xFF" if "T < 16 ^ q"
        proof -
          have "T + 255 * 256 ^ i < 256 ^ i + 255 * 256 ^ i" using that p16 by simp
          then have "bytes_val bs1 < 16 ^ (q + 2)" unfolding T1' p2 by simp
          with B show ?thesis by (simp add: add.assoc)
        qed
        show ?thesis using res len' up down by (simp add: T_def)
      qed
    next
      case False
      then have u1': "unat (bs1 ! i) = b - 1" using u1 b256 by (simp add: mod_if)
      have nff: "bs1 ! i \<noteq> 0xFF" using u1' b256 by (simp add: byte_eq_255_iff)
      have "bytes_val bs1 + b * 256 ^ i = T + (b - 1) * 256 ^ i" using T1 u1 u1' by simp
      moreover have "b * 256 ^ i = (b - 1) * 256 ^ i + 256 ^ i"
        using False by (cases b) simp_all
      ultimately have T1': "bytes_val bs1 + 16 ^ q = T" by (simp add: p16)
      have step: "decrQuartet sz bs q = (bs1, of_bool ((b - 1) mod 16 = 15))"
        using nguard True nff u1'
        by (subst decrQuartet.simps)
          (simp add: Let_def bs1_def[symmetric] i_def[symmetric] word_unat_eq_iff unat_and_0xF)
      have dlo: "bytes_val bs1 div 16 ^ q mod 16 = (b - 1) mod 16"
        using digit_lo[OF i1] u1' by (simp add: q2)
      have dhi: "bytes_val bs1 div 16 ^ (q + 1) mod 16 = (b - 1) div 16"
        using digit_hi[OF i1] u1' by (simp add: q2)
      have ge: "16 ^ q \<le> T" using T1' by linarith
      show ?thesis
      proof (cases "(b - 1) mod 16 = 15")
        case True
        have "(b - 1) div 16 \<noteq> 15"
        proof
          assume "(b - 1) div 16 = 15"
          then have "b - 1 = 255" using True by presburger
          then show False using b256 by simp
        qed
        then show ?thesis
          using step len1 T1' dlo dhi True ge by (simp add: T_def)
      next
        case False
        then show ?thesis
          using step len1 T1' dlo ge by (simp add: T_def)
      qed
    qed
  next
    case False
    then have q2: "q = 2 * i + 1" by (simp add: i_def)
    have p16: "(16::nat) ^ q = 16 * 256 ^ i" by (simp add: q2 power_mult)
    have isz': "i < sz" using less.prems(2) q2 by simp
    define bs1 where "bs1 = bs[i := bs ! i - 16]"
    have len1: "length bs1 = sz + 1" using less.prems by (simp add: bs1_def)
    have i1: "i < length bs1" using i by (simp add: bs1_def)
    have u1: "unat (bs1 ! i) = (b + 240) mod 256"
      using i by (simp add: bs1_def b_def unat_byte_sub16)
    have T1: "bytes_val bs1 + b * 256 ^ i = T + ((b + 240) mod 256) * 256 ^ i"
      using bytes_val_update[OF i, of "bs ! i - 16"] u1 i by (simp add: bs1_def b_def T_def)
    have dhi: "bytes_val bs1 div 16 ^ q mod 16 = (b + 240) mod 256 div 16"
      using digit_hi[OF i1] u1 by (simp add: q2)
    have qm: "q mod 2 = 1" using False by presburger
    show ?thesis
    proof (cases "b < 16")
      case True
      then have u1': "unat (bs1 ! i) = b + 240" using u1 by simp
      have f: "drop_bit 4 (bs1 ! i) = 0xF"
        using u1' True by (simp add: word_unat_eq_iff unat_drop_bit_div)
      have "bytes_val bs1 + b * 256 ^ i = T + b * 256 ^ i + 240 * 256 ^ i"
        using T1 u1 u1' by (simp add: add_mult_distrib)
      then have T1': "bytes_val bs1 = T + 240 * 256 ^ i" by simp
      have step: "decrQuartet sz bs q =
          (case decrQuartet sz bs1 (q + 1) of (bytes, r) \<Rightarrow> (bytes, 1 + r))"
        using nguard qm f
        by (subst decrQuartet.simps) (simp add: Let_def bs1_def i_def)
      have "\<exists>bs' r. decrQuartet sz bs1 (q + 1) = (bs', r) \<and> length bs' = sz + 1
           \<and> (16 ^ (q + 1) \<le> bytes_val bs1 \<longrightarrow>
                 bytes_val bs' + 16 ^ (q + 1) = bytes_val bs1
                 \<and> bytes_val bs' div 16 ^ (q + 1) mod 16 ^ r = 16 ^ r - 1
                 \<and> bytes_val bs' div 16 ^ (q + 1 + r) mod 16 \<noteq> 15)
           \<and> (bytes_val bs1 < 16 ^ (q + 1) \<longrightarrow> q + 1 + r = 2 * sz + 2 \<and> bs' ! sz = 0xFF)"
      proof (rule less.hyps)
        show "2 * sz + 2 - (q + 1) < 2 * sz + 2 - q" using less.prems by simp
        show "length bs1 = sz + 1" by (rule len1)
        show "q + 1 \<le> 2 * sz" using isz' q2 by simp
      qed
      then obtain bs' r where rec: "decrQuartet sz bs1 (q + 1) = (bs', r)"
        and len': "length bs' = sz + 1"
        and A: "16 ^ (q + 1) \<le> bytes_val bs1 \<longrightarrow>
                 bytes_val bs' + 16 ^ (q + 1) = bytes_val bs1
                 \<and> bytes_val bs' div 16 ^ (q + 1) mod 16 ^ r = 16 ^ r - 1
                 \<and> bytes_val bs' div 16 ^ (q + 1 + r) mod 16 \<noteq> 15"
        and B: "bytes_val bs1 < 16 ^ (q + 1) \<longrightarrow> q + 1 + r = 2 * sz + 2 \<and> bs' ! sz = 0xFF"
        by (elim exE conjE)
      have res: "decrQuartet sz bs q = (bs', 1 + r)" using step rec by simp
      have p2: "(16::nat) ^ (q + 1) = 256 * 256 ^ i" by (simp add: p16)
      have i': "i < length bs'" using len' i less.prems by simp
      have up: "bytes_val bs' + 16 ^ q = T
                 \<and> bytes_val bs' div 16 ^ q mod 16 ^ (1 + r) = 16 ^ (1 + r) - 1
                 \<and> bytes_val bs' div 16 ^ (q + (1 + r)) mod 16 \<noteq> 15" if "16 ^ q \<le> T"
      proof -
        have "16 * 256 ^ i + 240 * 256 ^ i \<le> T + 240 * 256 ^ i" using that p16 by simp
        then have ge: "16 ^ (q + 1) \<le> bytes_val bs1" unfolding T1' p2 by simp
        from A ge have val': "bytes_val bs' + 16 ^ (q + 1) = bytes_val bs1"
          and r1: "bytes_val bs' div 16 ^ (q + 1) mod 16 ^ r = 16 ^ r - 1"
          and r2: "bytes_val bs' div 16 ^ (q + 1 + r) mod 16 \<noteq> 15" by simp_all
        have val: "bytes_val bs' + 16 ^ q = T"
          using val' T1' by (simp add: p2 p16)
        define y where "y = bytes_val bs' div 16 ^ q"
        have "bytes_val bs' div 256 ^ i mod 256
              = (bytes_val bs' + 256 ^ Suc i) div 256 ^ i mod 256"
          by (simp only: add_pow_div_mod)
        also have "\<dots> = bytes_val bs1 div 256 ^ i mod 256"
        proof -
          have "bytes_val bs' + 256 ^ Suc i = bytes_val bs1" using val' unfolding p2 by simp
          then show ?thesis by (simp only:)
        qed
        finally have "unat (bs' ! i) = unat (bs1 ! i)"
          using bytes_val_nth[OF i'] bytes_val_nth[OF i1] by simp
        then have "y mod 16 = unat (bs1 ! i) div 16"
          using digit_hi[OF i'] by (simp add: y_def q2)
        then have y0: "y mod 16 = 16 - 1" using u1' True by simp
        have y1: "y div 16 mod 16 ^ r = 16 ^ r - 1"
          using r1 div_pow_add[of "bytes_val bs'" q 1] by (simp add: y_def)
        have "y mod (16 * 16 ^ r) = 16 * 16 ^ r - 1"
          using y0 y1 by (rule ones_extend) simp
        then have R1: "bytes_val bs' div 16 ^ q mod 16 ^ (1 + r) = 16 ^ (1 + r) - 1"
          by (simp add: y_def)
        have R2: "bytes_val bs' div 16 ^ (q + (1 + r)) mod 16 \<noteq> 15"
          using r2 by (simp add: add.assoc)
        show ?thesis using val R1 R2 by simp
      qed
      have down: "q + (1 + r) = 2 * sz + 2 \<and> bs' ! sz = 0xFF" if "T < 16 ^ q"
      proof -
        have "T + 240 * 256 ^ i < 16 * 256 ^ i + 240 * 256 ^ i" using that p16 by simp
        then have "bytes_val bs1 < 16 ^ (q + 1)" unfolding T1' p2 by simp
        with B show ?thesis by (simp add: add.assoc)
      qed
      show ?thesis using res len' up down by (simp add: T_def)
    next
      case False
      then have u1': "unat (bs1 ! i) = b - 16" using u1 b256 by (simp add: mod_if)
      have "bytes_val bs1 + b * 256 ^ i = T + (b - 16) * 256 ^ i" using T1 u1 u1' by simp
      moreover have "b * 256 ^ i = (b - 16) * 256 ^ i + 16 * 256 ^ i"
        using False by (simp flip: add_mult_distrib)
      ultimately have T1': "bytes_val bs1 + 16 ^ q = T" by (simp add: p16)
      have d: "unat (bs1 ! i) div 16 \<noteq> 15" "unat (bs1 ! i) div 16 < 16"
        using u1' b256 by simp_all
      have nf: "drop_bit 4 (bs1 ! i) \<noteq> 0xF"
        using d by (simp add: word_unat_eq_iff unat_drop_bit_div)
      have nf2: "drop_bit 4 (bs1 ! i) AND 0xF \<noteq> 0xF"
        using d by (simp add: word_unat_eq_iff unat_and_0xF unat_drop_bit_div)
      have step: "decrQuartet sz bs q = (bs1, 0)"
        using nguard qm nf nf2
        by (subst decrQuartet.simps) (simp add: Let_def bs1_def i_def)
      have ge: "16 ^ q \<le> T" using T1' by linarith
      show ?thesis
        using step len1 T1' dhi u1 u1' d ge by (simp add: T_def)
    qed
  qed
qed

lemma mod_pred_of_dvd_Suc:
  assumes "P dvd Suc x" "0 < (P::nat)"
  shows "x mod P = P - 1"
proof -
  have "Suc x mod P = 0" using assms(1) by (simp add: mod_eq_0_iff_dvd)
  then have "Suc (x mod P) = P" by (simp add: mod_Suc split: if_splits)
  then show ?thesis by simp
qed

lemma dvd_Suc_of_mod_pred:
  assumes "x mod P = P - 1" "0 < (P::nat)"
  shows "P dvd Suc x"
proof -
  have "Suc (x mod P) = P" using assms by simp
  then have "Suc x mod P = 0" by (simp add: mod_Suc)
  then show ?thesis by (simp add: mod_eq_0_iff_dvd)
qed

lemma div_of_dvd_Suc:
  assumes "Suc x = P * A" "0 < (P::nat)"
  shows "x div P = A - 1"
proof -
  have A: "0 < A" using assms(1) by (cases A) simp_all
  have "P * A = P * (A - 1) + P" using A by (cases A) simp_all
  then have "x = P * (A - 1) + (P - 1)" using assms by linarith
  moreover have "P - 1 < P" using assms(2) by simp
  ultimately show ?thesis
    by (metis div_mult_self4 div_less add.right_neutral add.commute assms(2) less_numeral_extra(3))
qed

lemma decr_aligned:
  assumes "T' + 16 ^ q = T" "16 ^ q dvd Suc T" "T' div 16 ^ q mod 16 ^ r = 16 ^ r - 1"
  shows "16 ^ (q + r) dvd Suc (T'::nat)"
proof -
  have "Suc T' + 16 ^ q = Suc T" using assms(1) by simp
  then have "16 ^ q dvd Suc T' + 16 ^ q" using assms(2) by simp
  then have "16 ^ q dvd Suc T'" by (simp only: dvd_add_triv_right_iff)
  then have "T' mod 16 ^ q = 16 ^ q - 1" by (rule mod_pred_of_dvd_Suc) simp
  then have "T' mod (16 ^ q * 16 ^ r) = 16 ^ q * 16 ^ r - 1"
    using assms(3) by (rule ones_extend) simp
  then have "T' mod 16 ^ (q + r) = 16 ^ (q + r) - 1" by (simp add: power_add)
  then show ?thesis by (rule dvd_Suc_of_mod_pred) simp
qed

lemma decr_no_borrow:
  assumes "T' + 16 ^ q = T" "16 ^ q dvd Suc T" "T' div 16 ^ q mod 16 ^ r = 16 ^ r - 1"
    "T' div 16 ^ (q + r) mod 16 \<noteq> 15"
  shows "T div 16 ^ (q + r + 1) = (T'::nat) div 16 ^ (q + r + 1)"
proof -
  define P :: nat where "P = 16 ^ (q + r)"
  have Ppos: "0 < P" by (simp add: P_def)
  have dvd: "P dvd Suc T'" unfolding P_def using assms(1-3) by (rule decr_aligned)
  then obtain A where A: "Suc T' = P * A" by (auto simp: dvd_def)
  have Apos: "0 < A" using A by (cases A) simp_all
  have T'div: "T' div P = A - 1" using A Ppos by (rule div_of_dvd_Suc)
  have Am: "(A - 1) mod 16 \<noteq> 15" using assms(4) T'div by (simp add: P_def)
  have le: "(16::nat) ^ q \<le> P" unfolding P_def by (simp add: power_increasing)
  have "Suc T = P * A + 16 ^ q" using A assms(1) by simp
  then have Teq: "T = P * A + (16 ^ q - 1)" by simp
  have "16 ^ q - 1 < P" using le by (simp add: less_le_trans[OF _ le])
  then have "T div P = A"
    unfolding Teq using Ppos
    by (metis div_mult_self4 div_less add.right_neutral add.commute less_numeral_extra(3))
  then have "T div (P * 16) = A div 16" by (simp add: div_mult2_eq)
  also have "\<dots> = (A - 1) div 16"
  proof -
    have "A = Suc (A - 1)" using Apos by simp
    moreover have "Suc (A - 1) mod 16 \<noteq> 0" using Am by (simp add: mod_Suc)
    ultimately show ?thesis by (metis div_Suc)
  qed
  also have "\<dots> = T' div (P * 16)" using T'div by (simp add: div_mult2_eq)
  finally show ?thesis by (simp add: P_def power_add mult.commute)
qed

lemma absent_range_down:
  assumes emp: "is_empty (load r (npath T (2 * sz) d))" and al: "16 ^ d dvd Suc T"
    and d: "d \<le> 2 * sz" and k: "present sz r k" "k \<le> T"
  shows "k + 16 ^ d \<le> T"
proof (rule ccontr)
  assume "\<not> k + 16 ^ d \<le> T"
  then have lt: "T < k + 16 ^ d" by simp
  from al obtain A where A: "Suc T = 16 ^ d * A" by (auto simp: dvd_def)
  have Apos: "0 < A" using A by (cases A) simp_all
  have Td: "T div 16 ^ d = A - 1" using A by (rule div_of_dvd_Suc) simp
  have e: "(16::nat) ^ d * A = 16 ^ d * (A - 1) + 16 ^ d" using Apos by (cases A) simp_all
  have "16 ^ d * (A - 1) \<le> k" using lt A e by linarith
  moreover have "k < 16 ^ d * (A - 1) + 16 ^ d" using k(2) A e by linarith
  ultimately have "k div 16 ^ d = A - 1"
    by (metis div_mult_self4 div_less add.right_neutral add.commute le_Suc_ex
        nat_add_left_cancel_less zero_less_numeral zero_less_power less_numeral_extra(3))
  then have "k div 16 ^ d = T div 16 ^ d" using Td by simp
  from absent_subtree[OF emp this d] k(1) show False by simp
qed

lemma decr_step:
  assumes ok: "it_ok sz it" and d: "depth it < 2 * sz"
    and al: "16 ^ depth it dvd Suc (bytes_val (key_bytes it))"
    and ge: "16 ^ depth it \<le> bytes_val (key_bytes it)"
  obtains bs' r where "decrQuartet sz (key_bytes it) (depth it) = (bs', r)"
    "it_ok sz (it\<lparr>key_bytes := bs', depth := depth it + r\<rparr>)"
    "bytes_val bs' + 16 ^ depth it = bytes_val (key_bytes it)"
    "depth it + r < 2 * sz" "16 ^ (depth it + r) dvd Suc (bytes_val bs')"
proof -
  let ?T = "bytes_val (key_bytes it)"
  let ?q = "depth it"
  have len: "length (key_bytes it) = sz + 1" using ok by (simp add: it_ok_def)
  have TM: "?T < 16 ^ (2 * sz)" using ok by (simp add: it_ok_def)
  have q: "?q \<le> 2 * sz" using d by simp
  from decrQuartet_spec[OF len q] ge
  obtain bs' r where s: "decrQuartet sz (key_bytes it) ?q = (bs', r)"
    and len': "length bs' = sz + 1"
    and val: "bytes_val bs' + 16 ^ ?q = ?T"
    and r1: "bytes_val bs' div 16 ^ ?q mod 16 ^ r = 16 ^ r - 1"
    and r2: "bytes_val bs' div 16 ^ (?q + r) mod 16 \<noteq> 15"
    by (elim exE conjE) blast
  have al': "16 ^ (?q + r) dvd Suc (bytes_val bs')"
    using val al r1 by (rule decr_aligned)
  have lt': "bytes_val bs' < 16 ^ (2 * sz)" using val TM by linarith
  have dr: "?q + r < 2 * sz"
  proof -
    have "(16::nat) ^ (?q + r) \<le> Suc (bytes_val bs')" using al' by (rule dvd_imp_le) simp
    also have "Suc (bytes_val bs') \<le> bytes_val bs' + 16 ^ ?q" by (simp add: Suc_le_eq)
    also have "\<dots> < 16 ^ (2 * sz)" using val TM by simp
    finally show ?thesis by (simp only: power_strict_increasing_iff one_less_numeral_iff semiring_norm)
  qed
  have nc: "?T div 16 ^ (?q + r + 1) = bytes_val bs' div 16 ^ (?q + r + 1)"
    using val al r1 r2 by (rule decr_no_borrow)
  have st: "stack it ! e = npath (bytes_val bs') (2 * sz) (Suc e)"
    if "?q + r \<le> e" "e < 2 * sz" for e
  proof -
    define x where "x = e - (?q + r)"
    have e: "e = ?q + r + x" using that(1) by (simp add: x_def)
    have se: "Suc e = (?q + r + 1) + x" by (simp add: e)
    have "?T div 16 ^ (Suc e) = ?T div 16 ^ (?q + r + 1) div 16 ^ x"
      unfolding se by (rule div_pow_add)
    also have "\<dots> = bytes_val bs' div 16 ^ (?q + r + 1) div 16 ^ x"
      by (simp only: nc)
    also have "\<dots> = bytes_val bs' div 16 ^ (Suc e)"
      unfolding se by (rule div_pow_add[symmetric])
    finally have "?T div 16 ^ (Suc e) = bytes_val bs' div 16 ^ (Suc e)" .
    then have "npath ?T (2 * sz) (Suc e) = npath (bytes_val bs') (2 * sz) (Suc e)"
      by (rule npath_cong)
    moreover have "stack it ! e = npath ?T (2 * sz) (Suc e)"
      using ok that d by (simp add: it_ok_def)
    ultimately show ?thesis by simp
  qed
  have lens: "length (stack it) = 2 * sz" using ok by (simp add: it_ok_def)
  have ok': "it_ok sz (it\<lparr>key_bytes := bs', depth := ?q + r\<rparr>)"
    unfolding it_ok_def
  proof (intro conjI allI impI)
    show "bytes_val (key_bytes (it\<lparr>key_bytes := bs', depth := ?q + r\<rparr>)) < 16 ^ (2 * sz)"
      using lt' by simp
    fix e
    assume "depth (it\<lparr>key_bytes := bs', depth := ?q + r\<rparr>) \<le> e \<and> e < 2 * sz"
    then have "?q + r \<le> e" "e < 2 * sz" by simp_all
    from st[OF this]
    show "stack (it\<lparr>key_bytes := bs', depth := ?q + r\<rparr>) ! e =
        npath (bytes_val (key_bytes (it\<lparr>key_bytes := bs', depth := ?q + r\<rparr>))) (2 * sz) (Suc e)"
      by simp
  qed (simp_all add: len' lens)
  show ?thesis using that[OF s ok' val dr al'] .
qed

lemma decr_step_underflow:
  assumes ok: "it_ok sz it" and d: "depth it < 2 * sz"
    and lt: "bytes_val (key_bytes it) < 16 ^ depth it"
  obtains bs' r where "decrQuartet sz (key_bytes it) (depth it) = (bs', r)"
    "length bs' = sz + 1" "bs' ! sz = 0xFF" "depth it + r = 2 * sz + 2"
proof -
  have len: "length (key_bytes it) = sz + 1" using ok by (simp add: it_ok_def)
  have q: "depth it \<le> 2 * sz" using d by simp
  from decrQuartet_spec[OF len q] lt
  obtain bs' r where "decrQuartet sz (key_bytes it) (depth it) = (bs', r)"
    "length bs' = sz + 1" "depth it + r = 2 * sz + 2" "bs' ! sz = 0xFF"
    by (elim exE conjE) blast
  then show ?thesis using that by blast
qed

lemma decrement_descend:
  assumes "depth it < 2 * sz" "depth it \<noteq> 0"
    "\<not> is_empty (next_slot (load r (stack it ! depth it))
                    (tetradeValue (key_bytes it) (depth it)))"
    "it1 = it\<lparr>stack := (stack it)[depth it - 1 :=
                  stack it ! depth it @ [tetradeValue (key_bytes it) (depth it)]],
               depth := depth it - 1\<rparr>"
  shows "decrement sz restore r it = found_step sz restore r it1 (decrement sz restore r it1)"
  using assms
  by (subst decrement.simps) (simp add: MAX_DEPTH_def Let_def found_step_def)

lemma decrement_carry:
  assumes "depth it < 2 * sz"
    "depth it = 0 \<or> is_empty (next_slot (load r (stack it ! depth it))
                    (tetradeValue (key_bytes it) (depth it)))"
    "decrQuartet sz (key_bytes it) (depth it) = (bs', n)"
    "it1 = it\<lparr>key_bytes := bs', depth := depth it + n\<rparr>"
  shows "decrement sz restore r it = found_step sz restore r it1 (decrement sz restore r it1)"
  using assms
  by (subst decrement.simps) (auto simp add: MAX_DEPTH_def Let_def found_step_def)

lemma decrement_end:
  assumes "\<not> depth it < 2 * sz" "key_bytes it ! sz \<noteq> 0x01"
  shows "decrement sz restore r it
         = Some (it\<lparr>key_bytes := (memset (key_bytes it) 0 sz)[sz := 0xFF]\<rparr>)"
  using assms
  by (subst decrement.simps) (simp add: MAX_DEPTH_def)

lemma decrement_wrap:
  assumes "\<not> depth it < 2 * sz" "key_bytes it ! sz = 0x01"
  shows "decrement sz restore r it = decrement sz restore r
          (it\<lparr>key_bytes := memset ((key_bytes it)[sz := 0x00]) 0xFF sz,
              depth := MAX_DEPTH sz - 1\<rparr>)"
  using assms
  by (subst decrement.simps) (simp add: MAX_DEPTH_def)

lemma decrement_found:
  fixes it :: "('k::len word, 'v) iterator_base"
  assumes "it_ok sz it" "depth it < 2 * sz"
    "16 ^ depth it dvd Suc (bytes_val (key_bytes it))"
    "present sz r k"
    "k + of_bool (depth it = 0) \<le> bytes_val (key_bytes it)"
    "\<forall>j. k < j \<and> j + of_bool (depth it = 0) \<le> bytes_val (key_bytes it) \<longrightarrow> \<not> present sz r j"
  shows "\<exists>it'. decrement sz restore r it = Some it' \<and> at_key sz restore r it' k"
  using assms
proof (induction "(bytes_val (key_bytes it) - k) * (2 * sz + 1) + depth it"
    arbitrary: it rule: less_induct)
  case less
  let ?T = "bytes_val (key_bytes it)"
  let ?d = "depth it"
  note ok = less.prems(1) and d = less.prems(2) and al = less.prems(3)
    and pk = less.prems(4) and ub = less.prems(5) and mx = less.prems(6)
  have sz: "0 < sz" using d by simp
  have kT: "k \<le> ?T" using ub by simp
  have child: "next_slot (load r (stack it ! ?d)) (tetradeValue (key_bytes it) ?d)
        = load r (npath ?T (2 * sz) ?d)"
    using child_slot[OF ok _ d, of r] by simp
  show ?case
  proof (cases "?d \<noteq> 0 \<and> \<not> is_empty (load r (npath ?T (2 * sz) ?d))")
    case True
    define it1 where "it1 = it\<lparr>stack := (stack it)[?d - 1 :=
                  stack it ! ?d @ [tetradeValue (key_bytes it) ?d]], depth := ?d - 1\<rparr>"
    have step: "decrement sz restore r it
        = found_step sz restore r it1 (decrement sz restore r it1)"
      using True child by (intro decrement_descend[OF d _ _ it1_def]) simp_all
    have ok1: "it_ok sz it1" unfolding it1_def using ok d True by (intro it_ok_descend) simp_all
    have T1: "bytes_val (key_bytes it1) = ?T" by (simp add: it1_def)
    have d1: "depth it1 = ?d - 1" by (simp add: it1_def)
    show ?thesis
    proof (cases "depth it1 = 0 \<and> present sz r ?T")
      case hit: True
      have "\<not> k < ?T"
      proof
        assume "k < ?T"
        moreover have "?T + of_bool (?d = 0) \<le> ?T" using True by simp
        ultimately have "\<not> present sz r ?T" using mx by blast
        then show False using hit by simp
      qed
      then have "k = ?T" using kT by simp
      then show ?thesis
        using found_step_hit[OF ok1 _ _ sz, of r restore "decrement sz restore r it1"] hit
        by (simp add: step T1)
    next
      case miss: False
      have m': "depth it1 = 0 \<longrightarrow> \<not> present sz r (bytes_val (key_bytes it1))"
        using miss by (auto simp: T1)
      have step': "decrement sz restore r it = decrement sz restore r it1"
        using found_step_miss[OF ok1 m' sz, of restore] by (simp add: step)
      have "\<exists>it'. decrement sz restore r it1 = Some it' \<and> at_key sz restore r it' k"
      proof (rule less.hyps)
        show "(bytes_val (key_bytes it1) - k) * (2 * sz + 1) + depth it1
            < (?T - k) * (2 * sz + 1) + ?d"
          using True by (simp add: T1 d1)
        show "it_ok sz it1" by (rule ok1)
        show "depth it1 < 2 * sz" using d by (simp add: d1)
        have "(16::nat) ^ (?d - 1) dvd 16 ^ ?d" by (rule le_imp_power_dvd) simp
        then show "16 ^ depth it1 dvd Suc (bytes_val (key_bytes it1))"
          using al by (simp only: T1 d1) (rule dvd_trans)
        show "present sz r k" by (rule pk)
        have ne: "depth it1 = 0 \<Longrightarrow> ?T \<noteq> k" using miss pk by auto
        then show "k + of_bool (depth it1 = 0) \<le> bytes_val (key_bytes it1)"
          using kT by (cases "depth it1 = 0") (simp_all add: T1)
        show "\<forall>j. k < j \<and> j + of_bool (depth it1 = 0) \<le> bytes_val (key_bytes it1)
              \<longrightarrow> \<not> present sz r j"
        proof (intro allI impI)
          fix j assume j: "k < j \<and> j + of_bool (depth it1 = 0) \<le> bytes_val (key_bytes it1)"
          then have "j \<le> ?T" by (simp add: T1)
          then have "j + of_bool (?d = 0) \<le> ?T" using True by simp
          then show "\<not> present sz r j" using mx j by blast
        qed
      qed
      then show ?thesis by (simp add: step')
    qed
  next
    case False
    then have cond: "?d = 0 \<or> is_empty (next_slot (load r (stack it ! ?d))
                    (tetradeValue (key_bytes it) ?d))"
      using child by auto
    have kT': "k + 16 ^ ?d \<le> ?T"
    proof (cases "?d = 0")
      case True
      then show ?thesis using ub by simp
    next
      case nz: False
      then have "is_empty (load r (npath ?T (2 * sz) ?d))" using False by simp
      then show ?thesis using al pk kT d by (intro absent_range_down[where r=r and sz=sz]) simp_all
    qed
    then have ge: "16 ^ ?d \<le> ?T" by linarith
    from decr_step[OF ok d al ge]
    obtain bs' n where s: "decrQuartet sz (key_bytes it) ?d = (bs', n)"
      and ok1': "it_ok sz (it\<lparr>key_bytes := bs', depth := ?d + n\<rparr>)"
      and val: "bytes_val bs' + 16 ^ ?d = ?T"
      and dn: "?d + n < 2 * sz" and al1: "16 ^ (?d + n) dvd Suc (bytes_val bs')" .
    define it1 where "it1 = it\<lparr>key_bytes := bs', depth := ?d + n\<rparr>"
    define T1 where "T1 = bytes_val bs'"
    have step: "decrement sz restore r it
        = found_step sz restore r it1 (decrement sz restore r it1)"
      using decrement_carry[OF d cond s it1_def] .
    have ok1: "it_ok sz it1" using ok1' by (simp add: it1_def)
    have T1: "bytes_val (key_bytes it1) = T1" by (simp add: it1_def T1_def)
    have T1T: "T1 + 16 ^ ?d = ?T" using val by (simp add: T1_def)
    have d1: "depth it1 = ?d + n" by (simp add: it1_def)
    have kT1: "k \<le> T1" using kT' T1T by linarith
    have ubT1: "T1 + of_bool (?d = 0) \<le> ?T"
      using T1T by (cases "?d = 0") (simp_all add: Suc_le_eq flip: T1T)
    show ?thesis
    proof (cases "depth it1 = 0 \<and> present sz r T1")
      case hit: True
      have "\<not> k < T1"
      proof
        assume "k < T1"
        then have "\<not> present sz r T1" using mx ubT1 by blast
        then show False using hit by simp
      qed
      then have "k = T1" using kT1 by simp
      then show ?thesis
        using found_step_hit[OF ok1 _ _ sz, of r restore "decrement sz restore r it1"] hit
        by (simp add: step T1)
    next
      case miss: False
      have m': "depth it1 = 0 \<longrightarrow> \<not> present sz r (bytes_val (key_bytes it1))"
        using miss by (auto simp: T1)
      have step': "decrement sz restore r it = decrement sz restore r it1"
        using found_step_miss[OF ok1 m' sz, of restore] by (simp add: step)
      have "\<exists>it'. decrement sz restore r it1 = Some it' \<and> at_key sz restore r it' k"
      proof (rule less.hyps)
        have "0 < (16::nat) ^ ?d" by simp
        then have "T1 - k < ?T - k" using kT1 T1T by linarith
        then have "(T1 - k) + 1 \<le> ?T - k" by simp
        then have "((T1 - k) + 1) * (2 * sz + 1) \<le> (?T - k) * (2 * sz + 1)"
          by (rule mult_le_mono1)
        moreover have "(T1 - k) * (2 * sz + 1) + (?d + n) < ((T1 - k) + 1) * (2 * sz + 1)"
          using dn by (simp add: algebra_simps)
        ultimately show "(bytes_val (key_bytes it1) - k) * (2 * sz + 1) + depth it1
            < (?T - k) * (2 * sz + 1) + ?d"
          unfolding T1 d1 by linarith
        show "it_ok sz it1" by (rule ok1)
        show "depth it1 < 2 * sz" using dn by (simp add: d1)
        show "16 ^ depth it1 dvd Suc (bytes_val (key_bytes it1))"
          using al1 by (simp add: d1 it1_def)
        show "present sz r k" by (rule pk)
        have ne: "depth it1 = 0 \<Longrightarrow> T1 \<noteq> k" using miss pk by auto
        then show "k + of_bool (depth it1 = 0) \<le> bytes_val (key_bytes it1)"
          using kT1 by (cases "depth it1 = 0") (simp_all add: T1)
        show "\<forall>j. k < j \<and> j + of_bool (depth it1 = 0) \<le> bytes_val (key_bytes it1)
              \<longrightarrow> \<not> present sz r j"
        proof (intro allI impI)
          fix j assume j: "k < j \<and> j + of_bool (depth it1 = 0) \<le> bytes_val (key_bytes it1)"
          then have "j \<le> T1" by (simp add: T1)
          then have "j + of_bool (?d = 0) \<le> ?T" using ubT1 by (cases "?d = 0") simp_all
          then show "\<not> present sz r j" using mx j by blast
        qed
      qed
      then show ?thesis by (simp add: step')
    qed
  qed
qed

lemma decrement_exhausted:
  fixes it :: "('k::len word, 'v) iterator_base"
  assumes "it_ok sz it" "depth it < 2 * sz"
    "16 ^ depth it dvd Suc (bytes_val (key_bytes it))"
    "\<forall>j. j + of_bool (depth it = 0) \<le> bytes_val (key_bytes it) \<longrightarrow> \<not> present sz r j"
  shows "\<exists>it'. decrement sz restore r it = Some it' \<and> key_bytes it' = replicate sz 0 @ [0xFF]"
  using assms
proof (induction "bytes_val (key_bytes it) * (2 * sz + 1) + depth it"
    arbitrary: it rule: less_induct)
  case less
  let ?T = "bytes_val (key_bytes it)"
  let ?d = "depth it"
  note ok = less.prems(1) and d = less.prems(2) and al = less.prems(3) and mx = less.prems(4)
  have sz: "0 < sz" using d by simp
  have child: "next_slot (load r (stack it ! ?d)) (tetradeValue (key_bytes it) ?d)
        = load r (npath ?T (2 * sz) ?d)"
    using child_slot[OF ok _ d, of r] by simp
  show ?case
  proof (cases "?d \<noteq> 0 \<and> \<not> is_empty (load r (npath ?T (2 * sz) ?d))")
    case True
    define it1 where "it1 = it\<lparr>stack := (stack it)[?d - 1 :=
                  stack it ! ?d @ [tetradeValue (key_bytes it) ?d]], depth := ?d - 1\<rparr>"
    have step: "decrement sz restore r it
        = found_step sz restore r it1 (decrement sz restore r it1)"
      using True child by (intro decrement_descend[OF d _ _ it1_def]) simp_all
    have ok1: "it_ok sz it1" unfolding it1_def using ok d True by (intro it_ok_descend) simp_all
    have T1: "bytes_val (key_bytes it1) = ?T" by (simp add: it1_def)
    have d1: "depth it1 = ?d - 1" by (simp add: it1_def)
    have "\<not> present sz r ?T" using mx True by simp
    then have m': "depth it1 = 0 \<longrightarrow> \<not> present sz r (bytes_val (key_bytes it1))"
      by (simp add: T1)
    have step': "decrement sz restore r it = decrement sz restore r it1"
      using found_step_miss[OF ok1 m' sz, of restore] by (simp add: step)
    have "\<exists>it'. decrement sz restore r it1 = Some it' \<and> key_bytes it' = replicate sz 0 @ [0xFF]"
    proof (rule less.hyps)
      show "bytes_val (key_bytes it1) * (2 * sz + 1) + depth it1 < ?T * (2 * sz + 1) + ?d"
        using True by (simp add: T1 d1)
      show "it_ok sz it1" by (rule ok1)
      show "depth it1 < 2 * sz" using d by (simp add: d1)
      have "(16::nat) ^ (?d - 1) dvd 16 ^ ?d" by (rule le_imp_power_dvd) simp
      then show "16 ^ depth it1 dvd Suc (bytes_val (key_bytes it1))"
        using al by (simp only: T1 d1) (rule dvd_trans)
      show "\<forall>j. j + of_bool (depth it1 = 0) \<le> bytes_val (key_bytes it1) \<longrightarrow> \<not> present sz r j"
      proof (intro allI impI)
        fix j assume "j + of_bool (depth it1 = 0) \<le> bytes_val (key_bytes it1)"
        then have "j \<le> ?T" by (simp add: T1)
        then have "j + of_bool (?d = 0) \<le> ?T" using True by simp
        then show "\<not> present sz r j" using mx by blast
      qed
    qed
    then show ?thesis by (simp add: step')
  next
    case False
    then have cond: "?d = 0 \<or> is_empty (next_slot (load r (stack it ! ?d))
                    (tetradeValue (key_bytes it) ?d))"
      using child by auto
    show ?thesis
    proof (cases "16 ^ ?d \<le> ?T")
      case ge: True
      from decr_step[OF ok d al ge]
      obtain bs' n where s: "decrQuartet sz (key_bytes it) ?d = (bs', n)"
        and ok1': "it_ok sz (it\<lparr>key_bytes := bs', depth := ?d + n\<rparr>)"
        and val: "bytes_val bs' + 16 ^ ?d = ?T"
        and dn: "?d + n < 2 * sz" and al1: "16 ^ (?d + n) dvd Suc (bytes_val bs')" .
      define it1 where "it1 = it\<lparr>key_bytes := bs', depth := ?d + n\<rparr>"
      define T1 where "T1 = bytes_val bs'"
      have step: "decrement sz restore r it
          = found_step sz restore r it1 (decrement sz restore r it1)"
        using decrement_carry[OF d cond s it1_def] .
      have ok1: "it_ok sz it1" using ok1' by (simp add: it1_def)
      have T1: "bytes_val (key_bytes it1) = T1" by (simp add: it1_def T1_def)
      have T1T: "T1 + 16 ^ ?d = ?T" using val by (simp add: T1_def)
      have d1: "depth it1 = ?d + n" by (simp add: it1_def)
      have ubT1: "T1 + of_bool (?d = 0) \<le> ?T"
        using T1T by (cases "?d = 0") (simp_all add: Suc_le_eq flip: T1T)
      have "\<not> present sz r T1" using mx ubT1 by blast
      then have m': "depth it1 = 0 \<longrightarrow> \<not> present sz r (bytes_val (key_bytes it1))"
        by (simp add: T1)
      have step': "decrement sz restore r it = decrement sz restore r it1"
        using found_step_miss[OF ok1 m' sz, of restore] by (simp add: step)
      have "\<exists>it'. decrement sz restore r it1 = Some it' \<and> key_bytes it' = replicate sz 0 @ [0xFF]"
      proof (rule less.hyps)
        have "0 < (16::nat) ^ ?d" by simp
        then have "T1 < ?T" using T1T by linarith
        then have "T1 + 1 \<le> ?T" by simp
        then have "(T1 + 1) * (2 * sz + 1) \<le> ?T * (2 * sz + 1)" by (rule mult_le_mono1)
        moreover have "T1 * (2 * sz + 1) + (?d + n) < (T1 + 1) * (2 * sz + 1)"
          using dn by (simp add: algebra_simps)
        ultimately show "bytes_val (key_bytes it1) * (2 * sz + 1) + depth it1
            < ?T * (2 * sz + 1) + ?d"
          unfolding T1 d1 by linarith
        show "it_ok sz it1" by (rule ok1)
        show "depth it1 < 2 * sz" using dn by (simp add: d1)
        show "16 ^ depth it1 dvd Suc (bytes_val (key_bytes it1))"
          using al1 by (simp add: d1 it1_def)
        show "\<forall>j. j + of_bool (depth it1 = 0) \<le> bytes_val (key_bytes it1) \<longrightarrow> \<not> present sz r j"
        proof (intro allI impI)
          fix j assume "j + of_bool (depth it1 = 0) \<le> bytes_val (key_bytes it1)"
          then have "j \<le> T1" by (simp add: T1)
          then have "j + of_bool (?d = 0) \<le> ?T" using ubT1 by (cases "?d = 0") simp_all
          then show "\<not> present sz r j" using mx by blast
        qed
      qed
      then show ?thesis by (simp add: step')
    next
      case False
      then have lt: "?T < 16 ^ ?d" by simp
      from decr_step_underflow[OF ok d lt]
      obtain bs' n where s: "decrQuartet sz (key_bytes it) ?d = (bs', n)"
        and len': "length bs' = sz + 1" and ov: "bs' ! sz = 0xFF" and dn: "?d + n = 2 * sz + 2" .
      define it1 where "it1 = it\<lparr>key_bytes := bs', depth := ?d + n\<rparr>"
      have step: "decrement sz restore r it
          = found_step sz restore r it1 (decrement sz restore r it1)"
        using decrement_carry[OF d cond s it1_def] .
      have d1: "depth it1 = 2 * sz + 2" by (simp add: it1_def dn)
      have "found_step sz restore r it1 (decrement sz restore r it1) = decrement sz restore r it1"
        by (simp add: found_step_def d1)
      moreover have "decrement sz restore r it1
          = Some (it1\<lparr>key_bytes := (memset (key_bytes it1) 0 sz)[sz := 0xFF]\<rparr>)"
        by (rule decrement_end) (simp_all add: dn it1_def ov)
      moreover have "(memset (key_bytes it1) 0 sz)[sz := 0xFF] = replicate sz 0 @ [0xFF]"
        using memset_end[of bs' sz] len' by (simp add: it1_def)
      ultimately show ?thesis by (simp add: step it1_def)
    qed
  qed
qed

lemma buffer_of_key:
  assumes "LENGTH('k::len) = 8 * sz" "length bs = sz + 1" "bytes_val bs < 16 ^ (2 * sz)"
  shows "bs = key_to_bytes sz (of_nat (bytes_val bs) :: 'k word) @ [0]"
proof -
  let ?j = "of_nat (bytes_val bs) :: 'k word"
  have "bytes_val bs < 2 ^ LENGTH('k)" using assms(1,3) by (simp add: power_mult)
  then have u: "unat ?j = bytes_val bs" by (simp add: unat_of_nat)
  have "bytes_val (key_to_bytes sz ?j @ [0]) = bytes_val bs"
    using bytes_val_key[OF assms(1), of ?j] u by (simp add: bytes_val_append)
  moreover have "length bs = length (key_to_bytes sz ?j @ [0])" using assms(2) by simp
  ultimately show ?thesis using bytes_val_inj[of bs "key_to_bytes sz ?j @ [0]"] by simp
qed

lemma at_key_element:
  assumes "LENGTH('k::len) = 8 * sz" "0 < sz" "at_key sz restore r it K"
  shows "\<exists>j::'k word. unat j = K \<and> key_bytes it = key_to_bytes sz j @ [0]
           \<and> currentValue it = Some (restore j, element_fast_find sz r j)
           \<and> target_valid r it \<and> \<not> is_empty (element_fast_find sz r j)"
proof -
  have ok: "it_ok sz it" and d: "depth it = 0" and K: "bytes_val (key_bytes it) = K"
    and p: "present sz r K"
    and cv: "currentValue it
         = Some (restore (bytes_to_key sz (key_bytes it)), load r (npath K (2 * sz) 0))"
    using assms(3) by (simp_all add: at_key_def)
  let ?j = "of_nat K :: 'k word"
  have len: "length (key_bytes it) = sz + 1" and lt: "bytes_val (key_bytes it) < 16 ^ (2 * sz)"
    using ok by (simp_all add: it_ok_def)
  have kb: "key_bytes it = key_to_bytes sz ?j @ [0]"
    using buffer_of_key[OF assms(1) len lt] K by simp
  have "K < 2 ^ LENGTH('k)" using lt K assms(1) by (simp add: power_mult)
  then have u: "unat ?j = K" by (simp add: unat_of_nat)
  have bk: "bytes_to_key sz (key_bytes it) = ?j"
    unfolding kb using assms(1) by (rule bytes_to_key_key)
  have ef: "element_fast_find sz r ?j = load r (npath K (2 * sz) 0)"
    using element_fast_find_path[OF assms(1,2), of r ?j] u by simp
  have tv: "target_valid r it"
    using leaf_present[OF ok d assms(2), of r] p K d by (simp add: target_valid_def)
  show ?thesis
    using u kb cv bk ef tv p by (intro exI[of _ ?j]) (simp add: present_def)
qed

lemma bytes_val_ones: "Suc (bytes_val (replicate n 0xFF)) = 256 ^ n"
  by (induction n) simp_all

lemma decrement_end_it:
  assumes "0 < sz"
  shows "decrement sz restore r (end_it sz) = decrement sz restore r (last_it sz)"
proof -
  let ?e = "end_it sz :: ('a word, 'b) iterator_base"
  have kb: "key_bytes ?e = replicate sz 0 @ [1]" by (rule end_it_bytes)
  have d: "depth ?e = 2 * sz"
    by (simp add: end_it_def iterator_root_def iterator_base_root_def Let_def MAX_DEPTH_def)
  have st: "stack ?e = replicate (2 * sz) []"
    by (simp add: end_it_def iterator_root_def iterator_base_root_def Let_def MAX_DEPTH_def
        replicate_update_same mult.commute)
  have cv: "currentValue ?e = None"
    by (simp add: end_it_def iterator_root_def iterator_base_root_def Let_def)
  have m: "memset ((replicate sz 0 @ [1])[sz := 0]) 0xFF sz = replicate sz (0xFF::byte) @ [0]"
    by (simp add: memset_def list_update_append)
  have "decrement sz restore r ?e = decrement sz restore r
          (?e\<lparr>key_bytes := memset ((key_bytes ?e)[sz := 0x00]) 0xFF sz,
              depth := MAX_DEPTH sz - 1\<rparr>)"
    by (rule decrement_wrap) (simp_all add: d kb nth_append)
  moreover have "?e\<lparr>key_bytes := memset ((key_bytes ?e)[sz := 0x00]) 0xFF sz,
              depth := MAX_DEPTH sz - 1\<rparr> = last_it sz"
    using st cv by (simp add: last_it_def kb m MAX_DEPTH_def mult.commute)
  ultimately show ?thesis by simp
qed

lemma last_it_val: "Suc (bytes_val (key_bytes (last_it sz))) = 16 ^ (2 * sz)"
  using bytes_val_ones[of sz] by (simp add: last_it_def bytes_val_append power_mult)

lemma last_it_ok:
  assumes "0 < sz"
  shows "it_ok sz (last_it sz :: ('a, 'b) iterator_base)"
proof -
  have "bytes_val (key_bytes (last_it sz :: ('a, 'b) iterator_base)) < 16 ^ (2 * sz)"
    using lessI[of "bytes_val (key_bytes (last_it sz :: ('a, 'b) iterator_base))"]
    by (simp only: last_it_val)
  moreover have "stack (last_it sz :: ('a, 'b) iterator_base) ! d = npath (bytes_val (key_bytes (last_it sz))) (2 * sz) (Suc d)"
    if "depth (last_it sz :: ('a, 'b) iterator_base) \<le> d \<and> d < 2 * sz" for d
  proof -
    have "2 * sz - 1 \<le> d \<and> d < 2 * sz" using that by (simp add: last_it_def)
    then have "Suc d = 2 * sz" using assms by linarith
    then show ?thesis using that by (simp add: last_it_def)
  qed
  ultimately show ?thesis by (simp add: it_ok_def last_it_def)
qed

lemma last_it_aligned:
  "16 ^ depth (last_it sz) dvd Suc (bytes_val (key_bytes (last_it sz)))"
  unfolding last_it_val by (rule le_imp_power_dvd) (simp add: last_it_def)

lemma present_word:
  assumes "LENGTH('k::len) = 8 * sz" "0 < sz" "K < 16 ^ (2 * sz)"
  shows "present sz r K = (\<not> is_empty (element_fast_find sz r (of_nat K :: 'k word)))"
proof -
  have "K < 2 ^ LENGTH('k)" using assms(1,3) by (simp add: power_mult)
  then have "unat (of_nat K :: 'k word) = K" by (simp add: unat_of_nat)
  then show ?thesis
    using element_fast_find_path[OF assms(1,2), of r "of_nat K :: 'k word"]
    by (simp add: present_def)
qed

lemma present_key:
  assumes "LENGTH('k::len) = 8 * sz" "0 < sz"
  shows "present sz r (unat (j::'k word)) = (\<not> is_empty (element_fast_find sz r j))"
  by (simp add: element_fast_find_path[OF assms] present_def)

lemma rend_it_bytes: "key_bytes (rend_it sz :: ('k, 'v) iterator_base) = replicate sz 0 @ [0xFF]"
  by (simp add: rend_it_def reverse_iterator_root_def iterator_base_root_def Let_def
      memset_end_bytes)

lemma decrement_end_greatest:
  fixes r :: "'v ptr_t" and J :: "'k::len word"
  assumes "LENGTH('k) = 8 * sz" "0 < sz"
    "\<not> is_empty (element_fast_find sz r J)"
    "\<forall>j'::'k word. \<not> is_empty (element_fast_find sz r j') \<longrightarrow> j' \<le> J"
  shows "\<exists>it. decrement sz restore r (end_it sz) = Some it
           \<and> target_valid r it \<and> key_bytes it = key_to_bytes sz J @ [0]
           \<and> currentValue it = Some (restore J, element_fast_find sz r J)"
proof -
  let ?it = "last_it sz :: ('k word, 'v) iterator_base"
  let ?T = "bytes_val (key_bytes ?it)"
  have T: "Suc ?T = 16 ^ (2 * sz)" by (rule last_it_val)
  have d: "depth ?it < 2 * sz" using assms(2) by (simp add: last_it_def)
  have d0: "depth ?it \<noteq> 0" using assms(2) by (simp add: last_it_def)
  have K: "unat J < 16 ^ (2 * sz)" using assms(1) by (rule unat_key_bound)
  have pK: "present sz r (unat J)" using assms(3) by (simp add: present_key[OF assms(1,2)])
  have ub: "unat J + of_bool (depth ?it = 0) \<le> ?T" using K T d0 by simp
  have mx: "\<forall>j. unat J < j \<and> j + of_bool (depth ?it = 0) \<le> ?T \<longrightarrow> \<not> present sz r j"
  proof (intro allI impI notI)
    fix j assume j: "unat J < j \<and> j + of_bool (depth ?it = 0) \<le> ?T" and p: "present sz r j"
    have jl: "j < 16 ^ (2 * sz)" using j T by linarith
    then have "j < 2 ^ LENGTH('k)" using assms(1) by (simp add: power_mult)
    then have u: "unat (of_nat j :: 'k word) = j" by (simp add: unat_of_nat)
    have "\<not> is_empty (element_fast_find sz r (of_nat j :: 'k word))"
      using p present_word[OF assms(1,2) jl, of r] by simp
    then have "(of_nat j :: 'k word) \<le> J" using assms(4) by blast
    then have "j \<le> unat J" using u by (simp add: word_le_nat_alt)
    then show False using j by simp
  qed
  from decrement_found[OF last_it_ok[OF assms(2)] d last_it_aligned pK ub mx, of restore]
  obtain it where it: "decrement sz restore r ?it = Some it"
    and a: "at_key sz restore r it (unat J)" by blast
  from at_key_element[OF assms(1,2) a] obtain j :: "'k word" where
    j: "unat j = unat J" "key_bytes it = key_to_bytes sz j @ [0]"
      "currentValue it = Some (restore j, element_fast_find sz r j)" "target_valid r it"
    by blast
  have "j = J" using j(1) by (simp add: word_unat_eq_iff)
  then show ?thesis
    using it j decrement_end_it[OF assms(2), of restore r] by simp
qed

lemma decrement_end_empty:
  fixes r :: "'v ptr_t"
  assumes "LENGTH('k::len) = 8 * sz" "0 < sz"
    "\<forall>j::'k word. is_empty (element_fast_find sz r j)"
  shows "\<exists>it. decrement sz (restore :: 'k word \<Rightarrow> 'k word) r (end_it sz) = Some it
           \<and> key_bytes it = replicate sz 0 @ [0xFF] \<and> iterator_eq sz it (rend_it sz)"
proof -
  let ?it = "last_it sz :: ('k word, 'v) iterator_base"
  let ?T = "bytes_val (key_bytes ?it)"
  have T: "Suc ?T = 16 ^ (2 * sz)" by (rule last_it_val)
  have d: "depth ?it < 2 * sz" using assms(2) by (simp add: last_it_def)
  have mx: "\<forall>j. j + of_bool (depth ?it = 0) \<le> ?T \<longrightarrow> \<not> present sz r j"
  proof (intro allI impI)
    fix j assume "j + of_bool (depth ?it = 0) \<le> ?T"
    then have jl: "j < 16 ^ (2 * sz)" using T by linarith
    show "\<not> present sz r j" using present_word[OF assms(1,2) jl, of r] assms(3) by simp
  qed
  from decrement_exhausted[OF last_it_ok[OF assms(2)] d last_it_aligned mx, of restore]
  obtain it where "decrement sz restore r ?it = Some it"
    "key_bytes it = replicate sz 0 @ [0xFF]" by blast
  then show ?thesis
    using decrement_end_it[OF assms(2), of restore r]
    by (simp add: iterator_eq_def rend_it_bytes)
qed

text \<open>
  Claim C10.  When the container holds an element, decrementing a copy of \<open>end()\<close>
  returns, and gives an iterator that denotes an element (\<open>target_valid\<close>): its key
  buffer holds the greatest radix key \<open>j\<close> stored in the container followed by the
  overflow byte 0, and \<open>*it\<close> is the key \<open>restore j\<close> with the value stored for it.
  The order of the radix keys is the order of the container, which for signed integer
  keys is the native order.  When the container holds no element, decrementing a copy
  of \<open>end()\<close> returns the position before the first element: the key bytes are zero, the
  overflow byte is \<open>0xFF\<close>, and the iterator compares equal to \<open>rend()\<close>.
\<close>

theorem decrement_from_end:
  fixes m :: "'v arraymap" and ord :: "'k::len word ordering"
  assumes "LENGTH('k) = 8 * sz" "0 < sz"
  shows "((\<exists>j::'k word. \<not> is_empty (element_fast_find sz (root m) j)) \<longrightarrow>
           (\<exists>j it. \<not> is_empty (element_fast_find sz (root m) j)
              \<and> (\<forall>j'. \<not> is_empty (element_fast_find sz (root m) j') \<longrightarrow> j' \<le> j)
              \<and> decrement sz (Ordering_restore ord) (root m) (end_it sz) = Some it
              \<and> target_valid (root m) it
              \<and> key_bytes it = key_to_bytes sz j @ [0]
              \<and> currentValue it
                  = Some (Ordering_restore ord j, element_fast_find sz (root m) j)))
       \<and> ((\<forall>j::'k word. is_empty (element_fast_find sz (root m) j)) \<longrightarrow>
           (\<exists>it. decrement sz (Ordering_restore ord) (root m) (end_it sz) = Some it
              \<and> key_bytes it = replicate sz 0 @ [0xFF]
              \<and> iterator_eq sz it (rend_it sz)))"
proof (intro conjI impI)
  assume ne: "\<exists>j::'k word. \<not> is_empty (element_fast_find sz (root m) j)"
  let ?S = "{j::'k word. \<not> is_empty (element_fast_find sz (root m) j)}"
  have fin: "finite ?S" by simp
  have nemp: "?S \<noteq> {}" using ne by blast
  have in_S: "Max ?S \<in> ?S" using fin nemp by (rule Max_in)
  have ge: "\<forall>j'. \<not> is_empty (element_fast_find sz (root m) j') \<longrightarrow> j' \<le> Max ?S"
    using fin by (simp add: Max_ge)
  from in_S have p: "\<not> is_empty (element_fast_find sz (root m) (Max ?S))" by simp
  from decrement_end_greatest[OF assms p ge, of "Ordering_restore ord"]
  show "\<exists>j it. \<not> is_empty (element_fast_find sz (root m) j)
              \<and> (\<forall>j'. \<not> is_empty (element_fast_find sz (root m) j') \<longrightarrow> j' \<le> j)
              \<and> decrement sz (Ordering_restore ord) (root m) (end_it sz) = Some it
              \<and> target_valid (root m) it
              \<and> key_bytes it = key_to_bytes sz j @ [0]
              \<and> currentValue it
                  = Some (Ordering_restore ord j, element_fast_find sz (root m) j)"
    using p ge by blast
next
  assume "\<forall>j::'k word. is_empty (element_fast_find sz (root m) j)"
  then show "\<exists>it. decrement sz (Ordering_restore ord) (root m) (end_it sz) = Some it
              \<and> key_bytes it = replicate sz 0 @ [0xFF]
              \<and> iterator_eq sz it (rend_it sz)"
    using assms by (rule decrement_end_empty[rotated 2])
qed

text \<open>
  The theorem at a container of 8-bit keys that holds the keys 5 and 7, and at the empty
  container.
\<close>

theorem decrement_from_end_witness:
  "\<not> is_empty (element_fast_find 1
       (root (snd (insert_am 1 ordering_default_int8
          (snd (insert_am 1 ordering_default_int8 arraymap_init (5, ''a''))) (7, ''b''))))
       (0x87 :: 8 word))
   \<and> (\<exists>it. decrement 1 (Ordering_restore ordering_default_int8)
          (root (snd (insert_am 1 ordering_default_int8
             (snd (insert_am 1 ordering_default_int8 arraymap_init (5, ''a''))) (7, ''b''))))
          (end_it 1) = Some it
        \<and> target_valid
            (root (snd (insert_am 1 ordering_default_int8
               (snd (insert_am 1 ordering_default_int8 arraymap_init (5, ''a''))) (7, ''b''))))
            it)
   \<and> (\<forall>j :: 8 word. is_empty (element_fast_find 1 (root (arraymap_init :: string arraymap)) j))
   \<and> (\<exists>it. decrement 1 (Ordering_restore ordering_default_int8)
          (root (arraymap_init :: string arraymap)) (end_it 1) = Some it
        \<and> iterator_eq 1 it (rend_it 1))"
proof -
  let ?m = "snd (insert_am 1 ordering_default_int8
          (snd (insert_am 1 ordering_default_int8 arraymap_init (5, ''a''))) (7, ''b''))"
  have L: "LENGTH(8) = 8 * 1" by simp
  have h1: "\<not> is_empty (element_fast_find 1 (root ?m) (0x87 :: 8 word))" by code_simp
  then have e1: "\<exists>j :: 8 word. \<not> is_empty (element_fast_find 1 (root ?m) j)" by blast
  have h2: "\<forall>j :: 8 word. is_empty (element_fast_find 1 (root (arraymap_init :: string arraymap)) j)"
    by (simp add: element_fast_find_def arraymap_init_def load_Empty)
  show ?thesis
    using decrement_from_end[OF L zero_less_one, of ?m ordering_default_int8]
      decrement_from_end[OF L zero_less_one, of "arraymap_init :: string arraymap"
        ordering_default_int8]
      h1 e1 h2
    by blast
qed

end
